theory Spec2Isabelle
  imports Main
begin

section \<open>Task3/main.py: tasks, observers, factory and scheduler\<close>

text \<open>
  The module is object-oriented Python: tasks and observers are objects that are shared by
  reference (a scheduler and its caller hold the same task, all tasks of a scheduler hold
  the same logger). The model keeps the objects in a store and passes the store through
  every operation. A Python call either returns or raises; its result is a value of
  \<open>exn + 'a\<close>, with \<open>Inl\<close> for the exception, paired with the store it leaves behind.
\<close>

subsection \<open>Values, exceptions and output\<close>

text \<open>
  \<open>task_id\<close>, \<open>name\<close> and \<open>type\<close> are whatever the caller or the parsed JSON document
  supplies: the values \<open>json.loads\<close> produces, floating point numbers left out.
\<close>

datatype pyval =
    PNone
  | PBool bool
  | PInt int
  | PStr string
  | PList "pyval list"
  | PDict "(string \<times> pyval) list"

text \<open>
  The exceptions of the module. \<open>KeyError k\<close> is what \<open>task_json[k]\<close> raises on a
  missing key; \<open>ValueError v\<close> stands for
  \<^verbatim>\<open>ValueError(f"Unknown task type: {task_type}")\<close> and carries the interpolated
  value; \<open>Exception m\<close> is any other instance of Python's class \<open>Exception\<close>;
  \<open>BaseException m\<close> is an exception that is not an instance of \<open>Exception\<close>
  (\<open>KeyboardInterrupt\<close>, \<open>SystemExit\<close>), which \<^verbatim>\<open>except Exception\<close> does not catch.
\<close>

datatype exn = KeyError string | ValueError pyval | Exception string | BaseException string

fun is_Exception :: "exn \<Rightarrow> bool" where
  "is_Exception (BaseException m) = False"
| "is_Exception e = True"

type_synonym task_ref = nat
type_synonym obs_ref = nat

text \<open>
  Lines written by \<open>print\<close>, kept as the values interpolated into the f-string:
  the logger's line and the three work messages.
\<close>

datatype printed =
    LogLine pyval pyval string string
  | EmailMsg pyval
  | BackupMsg pyval
  | ReportMsg pyval
  | Line string

text \<open>
  The trace records, in program order, what an execution does: every assignment to a
  task's \<open>status\<close>, every call of an observer's \<open>update\<close> with its arguments,
  every \<open>time.sleep\<close> and every printed line.
\<close>

datatype event =
    Assign task_ref string
  | Update obs_ref task_ref string string
  | Sleep nat
  | Print printed

subsection \<open>Objects and the store\<close>

datatype task_class = EmailTask | DataBackupTask | ReportGenerationTask

record task =
  cls :: task_class
  task_id :: pyval
  name :: pyval
  status :: string
  created_at :: nat
  observers :: "obs_ref list"

text \<open>
  \<open>Observer.update\<close> is abstract. An observer object is modelled by what a call
  \<open>update(task, old_status, new_status)\<close> does, as a function of its arguments: the
  lines it prints and whether it returns (\<open>None\<close>) or raises. Observers with a state of
  their own, or that change the task they are notified about, are not modelled.
\<close>

type_synonym update_fn = "task \<Rightarrow> string \<Rightarrow> string \<Rightarrow> printed list \<times> exn option"

record world =
  task_heap :: "task_ref \<Rightarrow> task"
  observer_heap :: "obs_ref \<Rightarrow> update_fn"
  next_task :: task_ref
  next_observer :: obs_ref
  clock :: nat
  trace :: "event list"

text \<open>\<open>TaskLogger.update\<close>: prints one line and returns.\<close>

definition TaskLogger_update :: update_fn where
  "TaskLogger_update t old_status new_status =
     ([LogLine (task_id t) (name t) old_status new_status], None)"

text \<open>
  Creating an observer object whose \<open>update\<close> behaves as \<open>upd\<close>; \<open>TaskLogger()\<close> is
  the one instantiation in the module.
\<close>

definition new_observer :: "update_fn \<Rightarrow> world \<Rightarrow> obs_ref \<times> world" where
  "new_observer upd w =
     (next_observer w,
      w\<lparr>observer_heap := (observer_heap w)(next_observer w := upd),
        next_observer := Suc (next_observer w)\<rparr>)"

definition TaskLogger :: "world \<Rightarrow> obs_ref \<times> world" where
  "TaskLogger w = new_observer TaskLogger_update w"

subsection \<open>Task\<close>

text \<open>\<open>Task.__init__\<close>, reached through the constructor of one of the three subclasses.\<close>

definition Task_init :: "task_class \<Rightarrow> pyval \<Rightarrow> pyval \<Rightarrow> world \<Rightarrow> task_ref \<times> world" where
  "Task_init c tid nm w =
     (next_task w,
      w\<lparr>task_heap := (task_heap w)(next_task w :=
           \<lparr>cls = c, task_id = tid, name = nm, status = ''Pending'',
            created_at = clock w, observers = []\<rparr>),
        next_task := Suc (next_task w)\<rparr>)"

definition attach :: "task_ref \<Rightarrow> obs_ref \<Rightarrow> world \<Rightarrow> world" where
  "attach r ob w =
     w\<lparr>task_heap := (task_heap w)(r :=
          (task_heap w r)\<lparr>observers := observers (task_heap w r) @ [ob]\<rparr>)\<rparr>"

text \<open>
  The loop of \<open>notify\<close> over the observers still to be called. An exception raised by
  \<open>update\<close> leaves the loop and the function.
\<close>

fun notify_loop ::
  "task_ref \<Rightarrow> string \<Rightarrow> string \<Rightarrow> obs_ref list \<Rightarrow> world \<Rightarrow> (exn + unit) \<times> world" where
  "notify_loop r old_status new_status [] w = (Inr (), w)"
| "notify_loop r old_status new_status (ob # obs) w =
     (case observer_heap w ob (task_heap w r) old_status new_status of
        (out, res) \<Rightarrow>
          let w' = w\<lparr>trace := trace w @ Update ob r old_status new_status # map Print out\<rparr>
          in (case res of
                Some e \<Rightarrow> (Inl e, w')
              | None \<Rightarrow> notify_loop r old_status new_status obs w'))"

definition notify :: "task_ref \<Rightarrow> string \<Rightarrow> string \<Rightarrow> world \<Rightarrow> (exn + unit) \<times> world" where
  "notify r old_status new_status w =
     notify_loop r old_status new_status (observers (task_heap w r)) w"

definition set_status :: "task_ref \<Rightarrow> string \<Rightarrow> world \<Rightarrow> (exn + unit) \<times> world" where
  "set_status r new_status w =
     (let old = status (task_heap w r);
          w' = w\<lparr>task_heap := (task_heap w)(r := (task_heap w r)\<lparr>status := new_status\<rparr>),
                 trace := trace w @ [Assign r new_status]\<rparr>
      in notify r old new_status w')"

subsection \<open>The task subclasses\<close>

text \<open>
  The work step of \<open>run\<close> is \<^verbatim>\<open>time.sleep(d); print(msg)\<close>. Whether it raises is
  decided by the environment (an interrupted sleep, a closed output stream), so the
  outcome of the work step is a parameter of \<open>run\<close>.
\<close>

datatype work = Succeeds | Sleep_raises exn | Print_raises exn

text \<open>
  The body of the \<^verbatim>\<open>try\<close> block, shared by the three subclasses, which differ in the
  seconds slept and in the line printed.
\<close>

definition try_block ::
  "nat \<Rightarrow> (pyval \<Rightarrow> printed) \<Rightarrow> work \<Rightarrow> task_ref \<Rightarrow> world \<Rightarrow> (exn + unit) \<times> world" where
  "try_block secs msg env r w =
     (case set_status r ''Running'' w of
        (Inl e, w1) \<Rightarrow> (Inl e, w1)
      | (Inr _, w1) \<Rightarrow>
          (case env of
             Sleep_raises e \<Rightarrow> (Inl e, w1)
           | Print_raises e \<Rightarrow> (Inl e, w1\<lparr>trace := trace w1 @ [Sleep secs]\<rparr>)
           | Succeeds \<Rightarrow>
               set_status r ''Completed''
                 (w1\<lparr>trace := trace w1 @
                        [Sleep secs, Print (msg (task_id (task_heap w1 r)))]\<rparr>)))"

text \<open>
  \<^verbatim>\<open>try: ... except Exception: self.set_status("Failed")\<close>. The handler runs outside
  the \<^verbatim>\<open>try\<close> block: what \<open>set_status\<close> raises there leaves \<open>run\<close>.
\<close>

definition try_except ::
  "nat \<Rightarrow> (pyval \<Rightarrow> printed) \<Rightarrow> work \<Rightarrow> task_ref \<Rightarrow> world \<Rightarrow> (exn + unit) \<times> world" where
  "try_except secs msg env r w =
     (case try_block secs msg env r w of
        (Inl e, w') \<Rightarrow> if is_Exception e then set_status r ''Failed'' w' else (Inl e, w')
      | (Inr u, w') \<Rightarrow> (Inr u, w'))"

definition EmailTask_run :: "work \<Rightarrow> task_ref \<Rightarrow> world \<Rightarrow> (exn + unit) \<times> world" where
  "EmailTask_run = try_except 2 EmailMsg"

definition DataBackupTask_run :: "work \<Rightarrow> task_ref \<Rightarrow> world \<Rightarrow> (exn + unit) \<times> world" where
  "DataBackupTask_run = try_except 3 BackupMsg"

definition ReportGenerationTask_run :: "work \<Rightarrow> task_ref \<Rightarrow> world \<Rightarrow> (exn + unit) \<times> world" where
  "ReportGenerationTask_run = try_except 1 ReportMsg"

text \<open>\<open>task.run()\<close>: the method of the object's class.\<close>

definition run :: "work \<Rightarrow> task_ref \<Rightarrow> world \<Rightarrow> (exn + unit) \<times> world" where
  "run env r w =
     (case cls (task_heap w r) of
        EmailTask \<Rightarrow> EmailTask_run env r w
      | DataBackupTask \<Rightarrow> DataBackupTask_run env r w
      | ReportGenerationTask \<Rightarrow> ReportGenerationTask_run env r w)"

subsection \<open>TaskFactory\<close>

text \<open>The description is a dict; \<open>task_json[k]\<close> raises \<open>KeyError\<close> on a missing key.\<close>

definition create_task :: "(string \<rightharpoonup> pyval) \<Rightarrow> world \<Rightarrow> (exn + task_ref) \<times> world" where
  "create_task task_json w =
     (case task_json ''type'' of
        None \<Rightarrow> (Inl (KeyError ''type''), w)
      | Some task_type \<Rightarrow>
     (case task_json ''task_id'' of
        None \<Rightarrow> (Inl (KeyError ''task_id''), w)
      | Some tid \<Rightarrow>
     (case task_json ''name'' of
        None \<Rightarrow> (Inl (KeyError ''name''), w)
      | Some nm \<Rightarrow>
          if task_type = PStr ''email'' then
            (case Task_init EmailTask tid nm w of (r, w') \<Rightarrow> (Inr r, w'))
          else if task_type = PStr ''backup'' then
            (case Task_init DataBackupTask tid nm w of (r, w') \<Rightarrow> (Inr r, w'))
          else if task_type = PStr ''report'' then
            (case Task_init ReportGenerationTask tid nm w of (r, w') \<Rightarrow> (Inr r, w'))
          else (Inl (ValueError task_type), w))))"

subsection \<open>TaskScheduler\<close>

record scheduler =
  tasks :: "task_ref list"
  logger :: obs_ref

definition TaskScheduler_init :: "world \<Rightarrow> scheduler \<times> world" where
  "TaskScheduler_init w =
     (case TaskLogger w of (l, w') \<Rightarrow> (\<lparr>tasks = [], logger = l\<rparr>, w'))"

definition add_task :: "task_ref \<Rightarrow> scheduler \<Rightarrow> world \<Rightarrow> scheduler \<times> world" where
  "add_task t s w =
     (let w' = attach t (logger s) w
      in (s\<lparr>tasks := tasks s @ [t]\<rparr>, w'))"

text \<open>
  \<open>run_all\<close> hands \<open>task.run\<close> of every task to a \<open>ThreadPoolExecutor\<close>, which is
  library code. A worker stores what the call returns or raises in the call's future;
  \<open>f.result()\<close> waits for the future and returns or raises what it holds; leaving the
  \<^verbatim>\<open>with\<close> block waits for every submitted call. The order in which the workers
  execute the calls is not fixed by the program: it is a parameter, the list of the
  positions of the futures in the order their calls are executed, and each call is executed
  without interleaving it with another. The environment of the work step of the call at
  position \<open>i\<close> is \<open>env i\<close>. A fault of the executor itself (a worker thread that cannot
  be started) is not modelled.
\<close>

fun run_workers ::
  "(nat \<Rightarrow> work) \<Rightarrow> task_ref list \<Rightarrow> nat list \<Rightarrow> (nat \<rightharpoonup> exn + unit) \<Rightarrow> world
     \<Rightarrow> (nat \<rightharpoonup> exn + unit) \<times> world" where
  "run_workers env ts [] futures w = (futures, w)"
| "run_workers env ts (i # order) futures w =
     (if i < length ts then
        (case run (env i) (ts ! i) w of
           (res, w') \<Rightarrow> run_workers env ts order (futures(i \<mapsto> res)) w')
      else run_workers env ts order futures w)"

text \<open>
  \<^verbatim>\<open>for f in futures: f.result()\<close> over the positions still to be read. A future whose
  call is never executed makes \<open>result\<close> wait forever: the loop does not return
  (\<open>None\<close>).
\<close>

fun wait_results :: "(nat \<rightharpoonup> exn + unit) \<Rightarrow> nat list \<Rightarrow> (exn + unit) option" where
  "wait_results futures [] = Some (Inr ())"
| "wait_results futures (i # is) =
     (case futures i of
        None \<Rightarrow> None
      | Some (Inl e) \<Rightarrow> Some (Inl e)
      | Some (Inr _) \<Rightarrow> wait_results futures is)"

definition run_all ::
  "nat list \<Rightarrow> (nat \<Rightarrow> work) \<Rightarrow> scheduler \<Rightarrow> world \<Rightarrow> ((exn + unit) \<times> world) option" where
  "run_all order env s w =
     (case run_workers env (tasks s) order Map.empty w of
        (futures, w') \<Rightarrow>
          (case wait_results futures [0..<length (tasks s)] of
             None \<Rightarrow> None
           | Some res \<Rightarrow> Some (res, w')))"

text \<open>The executor runs every submitted call once.\<close>

definition schedule :: "nat \<Rightarrow> nat list \<Rightarrow> bool" where
  "schedule n order \<longleftrightarrow> distinct order \<and> set order = {0..<n}"

section \<open>Notions used in the statements\<close>

text \<open>Reading the trace: the events added between two stores, and the kinds of event.\<close>

definition events_since :: "world \<Rightarrow> world \<Rightarrow> event list" where
  "events_since w w' = drop (length (trace w)) (trace w')"

fun is_Update :: "event \<Rightarrow> bool" where
  "is_Update (Update ob r old_status new_status) = True"
| "is_Update e = False"

fun is_Assign :: "event \<Rightarrow> bool" where
  "is_Assign (Assign r s) = True"
| "is_Assign e = False"

text \<open>The values assigned to the status of task \<open>r\<close>, in order.\<close>

fun assigned :: "task_ref \<Rightarrow> event list \<Rightarrow> string list" where
  "assigned r [] = []"
| "assigned r (Assign r' s # evs) = (if r' = r then s # assigned r evs else assigned r evs)"
| "assigned r (e # evs) = assigned r evs"

text \<open>
  The statuses a task passes through between two stores: the one it has in the first,
  then every value assigned to its status on the way to the second.
\<close>

definition status_sequence :: "task_ref \<Rightarrow> world \<Rightarrow> world \<Rightarrow> string list" where
  "status_sequence r w w' = status (task_heap w r) # assigned r (events_since w w')"

text \<open>
  \<open>passes r ss w w'\<close>: on the way from \<open>w\<close> to \<open>w'\<close> the status of task \<open>r\<close> is assigned
  the values \<open>ss\<close>, in this order, no other task is assigned a status, and the stores
  differ in nothing but this status and the trace.
\<close>

definition passes :: "task_ref \<Rightarrow> string list \<Rightarrow> world \<Rightarrow> world \<Rightarrow> bool" where
  "passes r ss w w' \<longleftrightarrow>
     (\<exists>evs. w' = w\<lparr>task_heap := (task_heap w)(r :=
                       (task_heap w r)\<lparr>status := last (status (task_heap w r) # ss)\<rparr>),
                     trace := trace w @ evs\<rparr> \<and>
            assigned r evs = ss \<and> (\<forall>r'. r' \<noteq> r \<longrightarrow> assigned r' evs = []))"

text \<open>Whether a call of \<open>update\<close> raises, and whether some observer of a task does.\<close>

definition update_raises :: "world \<Rightarrow> obs_ref \<Rightarrow> task \<Rightarrow> string \<Rightarrow> string \<Rightarrow> bool" where
  "update_raises w ob t old_status new_status \<longleftrightarrow>
     snd (observer_heap w ob t old_status new_status) \<noteq> None"

definition notification_raises :: "world \<Rightarrow> task_ref \<Rightarrow> string \<Rightarrow> string \<Rightarrow> bool" where
  "notification_raises w r old_status new_status \<longleftrightarrow>
     (\<exists>ob \<in> set (observers (task_heap w r)).
        update_raises w ob ((task_heap w r)\<lparr>status := new_status\<rparr>) old_status new_status)"

text \<open>The observers of a list up to and including the first one whose call raises.\<close>

fun invoked :: "(obs_ref \<Rightarrow> bool) \<Rightarrow> obs_ref list \<Rightarrow> obs_ref list" where
  "invoked bad [] = []"
| "invoked bad (ob # obs) = (if bad ob then [ob] else ob # invoked bad obs)"

text \<open>An observer whose \<open>update\<close> never raises.\<close>

definition non_failing :: "world \<Rightarrow> obs_ref \<Rightarrow> bool" where
  "non_failing w ob \<longleftrightarrow>
     (\<forall>t old_status new_status. snd (observer_heap w ob t old_status new_status) = None)"

text \<open>
  The observers of task \<open>r\<close> do not raise when they are notified of \<open>Failed\<close>, and what
  they raise on another notification is an instance of \<open>Exception\<close>.
\<close>

definition contained :: "world \<Rightarrow> task_ref \<Rightarrow> bool" where
  "contained w r \<longleftrightarrow>
     (\<forall>ob \<in> set (observers (task_heap w r)).
        (\<forall>t old_status. snd (observer_heap w ob t old_status ''Failed'') = None) \<and>
        (\<forall>t old_status new_status e.
           snd (observer_heap w ob t old_status new_status) = Some e \<longrightarrow> is_Exception e))"

text \<open>What the work step raises.\<close>

fun raised :: "work \<Rightarrow> exn option" where
  "raised Succeeds = None"
| "raised (Sleep_raises e) = Some e"
| "raised (Print_raises e) = Some e"

text \<open>Two stores with the same observer objects and the same observer lists.\<close>

definition same_observers :: "world \<Rightarrow> world \<Rightarrow> bool" where
  "same_observers w w' \<longleftrightarrow>
     observer_heap w' = observer_heap w \<and>
     (\<forall>r. observers (task_heap w' r) = observers (task_heap w r))"

section \<open>Example objects\<close>

text \<open>
  A store in which nothing has been created yet (what it holds at the references not yet
  handed out is never read), two observers that raise, and the first two records of the
  demonstration at the end of the module.
\<close>

definition no_objects :: world where
  "no_objects =
     \<lparr>task_heap = (\<lambda>r. \<lparr>cls = EmailTask, task_id = PNone, name = PNone, status = ''Pending'',
                          created_at = 0, observers = []\<rparr>),
      observer_heap = (\<lambda>ob. TaskLogger_update),
      next_task = 0, next_observer = 0, clock = 0, trace = []\<rparr>"

definition always_raises :: update_fn where
  "always_raises t old_status new_status = ([], Some (Exception ''observer failed''))"

definition raises_on :: "string \<Rightarrow> update_fn" where
  "raises_on s t old_status new_status =
     ([], if new_status = s then Some (Exception ''observer failed'') else None)"

definition welcome_email :: "string \<rightharpoonup> pyval" where
  "welcome_email = [''task_id'' \<mapsto> PInt 1, ''name'' \<mapsto> PStr ''Send Welcome Email'',
                    ''type'' \<mapsto> PStr ''email'']"

definition daily_backup :: "string \<rightharpoonup> pyval" where
  "daily_backup = [''task_id'' \<mapsto> PInt 2, ''name'' \<mapsto> PStr ''Daily DB Backup'',
                   ''type'' \<mapsto> PStr ''backup'']"

text \<open>A record with a type outside the three, and one that also lacks its name.\<close>

definition bogus_type :: "string \<rightharpoonup> pyval" where
  "bogus_type = [''task_id'' \<mapsto> PInt 2, ''name'' \<mapsto> PStr ''y'', ''type'' \<mapsto> PStr ''bogus'']"

definition bogus_unnamed :: "string \<rightharpoonup> pyval" where
  "bogus_unnamed = [''task_id'' \<mapsto> PInt 2, ''type'' \<mapsto> PStr ''bogus'']"

text \<open>The task made from the first record, at reference 0.\<close>

definition one_task :: world where
  "one_task = snd (create_task welcome_email no_objects)"

text \<open>That task with new observers of the given behaviours attached, in order.\<close>

definition watched :: "update_fn list \<Rightarrow> world" where
  "watched upds =
     fold (\<lambda>upd w. case new_observer upd w of (ob, w') \<Rightarrow> attach 0 ob w') upds one_task"

text \<open>
  That task and one new observer of the given behaviour (reference 0), attached twice.
\<close>

definition twice_watched :: "update_fn \<Rightarrow> world" where
  "twice_watched upd =
     (case new_observer upd one_task of (ob, w) \<Rightarrow> attach 0 ob (attach 0 ob w))"

text \<open>
  The loop of the demonstration, over the first two records: a scheduler with an email
  task (reference 0) and a backup task (reference 1). A record the factory rejects would
  end the program; neither of the two is rejected.
\<close>

fun add_created :: "(string \<rightharpoonup> pyval) \<Rightarrow> scheduler \<times> world \<Rightarrow> scheduler \<times> world" where
  "add_created data (s, w) =
     (case create_task data w of
        (Inr t, w') \<Rightarrow> add_task t s w'
      | (Inl e, w') \<Rightarrow> (s, w'))"

definition demo :: "scheduler \<times> world" where
  "demo = fold add_created [welcome_email, daily_backup] (TaskScheduler_init no_objects)"

text \<open>The same, with an observer that raises on \<open>Failed\<close> attached to the email task.\<close>

definition demo_alarm :: "scheduler \<times> world" where
  "demo_alarm =
     (case demo of (s, w) \<Rightarrow>
        case new_observer (raises_on ''Failed'') w of (ob, w') \<Rightarrow> (s, attach 0 ob w'))"

text \<open>An environment in which the work step of the first call raises and the others succeed.\<close>

definition first_body_fails :: "nat \<Rightarrow> work" where
  "first_body_fails i = (if i = 0 then Print_raises (Exception ''work failed'') else Succeeds)"

lemmas model_defs =
  one_task_def watched_def twice_watched_def demo_def demo_alarm_def first_body_fails_def welcome_email_def
  daily_backup_def no_objects_def always_raises_def raises_on_def TaskLogger_update_def
  TaskLogger_def new_observer_def Task_init_def attach_def notify_def set_status_def
  try_block_def try_except_def EmailTask_run_def DataBackupTask_run_def
  ReportGenerationTask_run_def run_def create_task_def TaskScheduler_init_def add_task_def
  run_all_def events_since_def status_sequence_def Let_def

section \<open>Lemmas\<close>

subsection \<open>The notification loop and \<open>set_status\<close>\<close>

lemma notify_loop_effect:
  "notify_loop r old new obs w = (res, w') \<Longrightarrow>
   \<exists>evs. w' = w\<lparr>trace := trace w @ evs\<rparr> \<and>
     (\<forall>e \<in> set evs. \<not> is_Assign e) \<and>
     filter is_Update evs =
       map (\<lambda>ob. Update ob r old new)
         (invoked (\<lambda>ob. update_raises w ob (task_heap w r) old new) obs) \<and>
     (res = Inr () \<longleftrightarrow> (\<forall>ob \<in> set obs. \<not> update_raises w ob (task_heap w r) old new)) \<and>
     (\<forall>e. res = Inl e \<longrightarrow> (\<exists>ob \<in> set obs. snd (observer_heap w ob (task_heap w r) old new) = Some e))"
proof (induction obs arbitrary: w res w')
  case Nil
  then show ?case by (auto intro: exI[of _ "[]"])
next
  case (Cons ob obs)
  obtain out r0 where o: "observer_heap w ob (task_heap w r) old new = (out, r0)"
    by (cases "observer_heap w ob (task_heap w r) old new")
  let ?w1 = "w\<lparr>trace := trace w @ Update ob r old new # map Print out\<rparr>"
  show ?case
  proof (cases r0)
    case None
    with Cons.prems o have "notify_loop r old new obs ?w1 = (res, w')" by simp
    from Cons.IH[OF this] obtain evs where
      e: "w' = ?w1\<lparr>trace := trace ?w1 @ evs\<rparr>"
         "\<forall>e \<in> set evs. \<not> is_Assign e"
         "filter is_Update evs = map (\<lambda>ob. Update ob r old new)
            (invoked (\<lambda>ob. update_raises ?w1 ob (task_heap ?w1 r) old new) obs)"
         "res = Inr () \<longleftrightarrow> (\<forall>ob \<in> set obs. \<not> update_raises ?w1 ob (task_heap ?w1 r) old new)"
         "\<forall>e. res = Inl e \<longrightarrow> (\<exists>ob \<in> set obs. snd (observer_heap ?w1 ob (task_heap ?w1 r) old new) = Some e)"
      by blast
    have u: "\<And>ob t. update_raises ?w1 ob t old new = update_raises w ob t old new"
      by (simp add: update_raises_def)
    have nb: "\<not> update_raises w ob (task_heap w r) old new"
      using o None by (simp add: update_raises_def)
    show ?thesis
      apply (rule exI[of _ "Update ob r old new # map Print out @ evs"])
      using e nb by (auto simp: u)
  next
    case (Some e)
    with Cons.prems o have "res = Inl e" "w' = ?w1" by auto
    moreover have "update_raises w ob (task_heap w r) old new"
      using o Some by (simp add: update_raises_def)
    ultimately show ?thesis
      apply -
      apply (rule exI[of _ "Update ob r old new # map Print out"])
      using o Some by (auto simp: comp_def)
  qed
qed

lemma assigned_append: "assigned r (xs @ ys) = assigned r xs @ assigned r ys"
  by (induction r xs rule: assigned.induct) auto

lemma assigned_no_Assign: "\<forall>e \<in> set evs. \<not> is_Assign e \<Longrightarrow> assigned r evs = []"
  by (induction r evs rule: assigned.induct) auto

lemma set_status_effect:
  assumes "set_status r new w = (res, w')"
  shows "\<exists>evs. w' = w\<lparr>task_heap := (task_heap w)(r := (task_heap w r)\<lparr>status := new\<rparr>),
                      trace := trace w @ Assign r new # evs\<rparr> \<and>
     (\<forall>e \<in> set evs. \<not> is_Assign e) \<and>
     filter is_Update evs =
       map (\<lambda>ob. Update ob r (status (task_heap w r)) new)
         (invoked (\<lambda>ob. update_raises w ob ((task_heap w r)\<lparr>status := new\<rparr>)
                      (status (task_heap w r)) new) (observers (task_heap w r))) \<and>
     (res = Inr () \<longleftrightarrow>
        (\<forall>ob \<in> set (observers (task_heap w r)).
           \<not> update_raises w ob ((task_heap w r)\<lparr>status := new\<rparr>) (status (task_heap w r)) new)) \<and>
     (\<forall>e. res = Inl e \<longrightarrow>
        (\<exists>ob \<in> set (observers (task_heap w r)).
           snd (observer_heap w ob ((task_heap w r)\<lparr>status := new\<rparr>) (status (task_heap w r)) new)
             = Some e))"
proof -
  let ?w1 = "w\<lparr>task_heap := (task_heap w)(r := (task_heap w r)\<lparr>status := new\<rparr>),
               trace := trace w @ [Assign r new]\<rparr>"
  from assms have "notify_loop r (status (task_heap w r)) new (observers (task_heap w r)) ?w1 = (res, w')"
    by (simp add: set_status_def notify_def Let_def)
  from notify_loop_effect[OF this] obtain evs where
    e: "w' = ?w1\<lparr>trace := trace ?w1 @ evs\<rparr>"
       "\<forall>e \<in> set evs. \<not> is_Assign e"
       "filter is_Update evs = map (\<lambda>ob. Update ob r (status (task_heap w r)) new)
          (invoked (\<lambda>ob. update_raises ?w1 ob (task_heap ?w1 r) (status (task_heap w r)) new)
             (observers (task_heap w r)))"
       "res = Inr () \<longleftrightarrow> (\<forall>ob \<in> set (observers (task_heap w r)).
           \<not> update_raises ?w1 ob (task_heap ?w1 r) (status (task_heap w r)) new)"
       "\<forall>e. res = Inl e \<longrightarrow> (\<exists>ob \<in> set (observers (task_heap w r)).
           snd (observer_heap ?w1 ob (task_heap ?w1 r) (status (task_heap w r)) new) = Some e)"
    by blast
  have u: "\<And>ob t old. update_raises ?w1 ob t old new = update_raises w ob t old new"
    by (simp add: update_raises_def)
  show ?thesis
    apply (rule exI[of _ evs])
    using e by (simp add: u)
qed

subsection \<open>The statuses assigned by \<open>run\<close>\<close>

lemma passes_set_status:
  "set_status r new w = (res, w') \<Longrightarrow> passes r [new] w w'"
  unfolding passes_def
  by (drule set_status_effect, erule exE, rule_tac x = "Assign r new # evs" in exI)
     (simp add: assigned_no_Assign)

lemma passes_trace: "passes r [] w (w\<lparr>trace := trace w @ [Sleep n]\<rparr>)"
  "passes r [] w (w\<lparr>trace := trace w @ [Sleep n, Print p]\<rparr>)"
  "passes r [] w w"
  unfolding passes_def
    apply (rule exI[of _ "[Sleep n]"], simp)
   apply (rule exI[of _ "[Sleep n, Print p]"], simp)
  apply (rule exI[of _ "[]"], simp)
  done

lemma passes_trans:
  assumes "passes r ss w w1" "passes r ss' w1 w2"
  shows "passes r (ss @ ss') w w2"
proof -
  from assms(1) obtain evs where
    1: "w1 = w\<lparr>task_heap := (task_heap w)(r := (task_heap w r)\<lparr>status := last (status (task_heap w r) # ss)\<rparr>),
                     trace := trace w @ evs\<rparr>" "assigned r evs = ss"
       "\<forall>r'. r' \<noteq> r \<longrightarrow> assigned r' evs = []"
    unfolding passes_def by blast
  from assms(2) obtain evs' where
    2: "w2 = w1\<lparr>task_heap := (task_heap w1)(r := (task_heap w1 r)\<lparr>status := last (status (task_heap w1 r) # ss')\<rparr>),
                     trace := trace w1 @ evs'\<rparr>" "assigned r evs' = ss'"
       "\<forall>r'. r' \<noteq> r \<longrightarrow> assigned r' evs' = []"
    unfolding passes_def by blast
  show ?thesis
    unfolding passes_def
    apply (rule exI[of _ "evs @ evs'"])
    using 1 2 by (simp add: assigned_append)
qed

lemma passes_frame:
  assumes "passes r ss w w'"
  shows "observer_heap w' = observer_heap w"
    and "task_heap w' r = (task_heap w r)\<lparr>status := last (status (task_heap w r) # ss)\<rparr>"
    and "r' \<noteq> r \<Longrightarrow> task_heap w' r' = task_heap w r'"
    and "\<exists>evs. trace w' = trace w @ evs \<and> assigned r evs = ss \<and> (\<forall>r'. r' \<noteq> r \<longrightarrow> assigned r' evs = [])"
  using assms unfolding passes_def by auto

lemma try_block_passes:
  assumes "try_block secs msg env r w = (res, w')"
  shows "(passes r [''Running''] w w' \<and> res \<noteq> Inr ()) \<or>
         (passes r [''Running'', ''Completed''] w w' \<and> env = Succeeds)"
proof -
  obtain a w1 where s1: "set_status r ''Running'' w = (a, w1)"
    by (cases "set_status r ''Running'' w")
  then have p1: "passes r [''Running''] w w1" by (rule passes_set_status)
  show ?thesis
  proof (cases a)
    case (Inl e)
    with assms s1 have "res = Inl e" "w' = w1" by (auto simp: try_block_def)
    with p1 show ?thesis by simp
  next
    case (Inr u)
    show ?thesis
    proof (cases env)
      case Succeeds
      let ?w2 = "w1\<lparr>trace := trace w1 @ [Sleep secs, Print (msg (task_id (task_heap w1 r)))]\<rparr>"
      from assms s1 Inr Succeeds have "set_status r ''Completed'' ?w2 = (res, w')"
        by (simp add: try_block_def)
      then have "passes r [''Completed''] ?w2 w'" by (rule passes_set_status)
      with passes_trans[OF p1 passes_trace(2)] have "passes r (([''Running''] @ []) @ [''Completed'']) w w'"
        by (rule passes_trans)
      with Succeeds show ?thesis by simp
    next
      case (Sleep_raises e)
      with assms s1 Inr have "res = Inl e" "w' = w1" by (auto simp: try_block_def)
      with p1 show ?thesis by simp
    next
      case (Print_raises e)
      with assms s1 Inr have "res = Inl e" "w' = w1\<lparr>trace := trace w1 @ [Sleep secs]\<rparr>"
        by (auto simp: try_block_def)
      with passes_trans[OF p1 passes_trace(1)] show ?thesis by simp
    qed
  qed
qed

lemma try_except_passes:
  assumes "try_except secs msg env r w = (res, w')"
  shows "\<exists>ss. passes r ss w w' \<and>
     (ss = [''Running''] \<and> res \<noteq> Inr () \<or> ss = [''Running'', ''Completed''] \<or>
      ss = [''Running'', ''Failed''] \<or> ss = [''Running'', ''Completed'', ''Failed''])"
proof -
  obtain a w1 where b: "try_block secs msg env r w = (a, w1)"
    by (cases "try_block secs msg env r w")
  note p = try_block_passes[OF b]
  show ?thesis
  proof (cases a)
    case (Inr u)
    with assms b have "res = Inr ()" "w' = w1" by (auto simp: try_except_def)
    with p Inr show ?thesis by auto
  next
    case (Inl e)
    show ?thesis
    proof (cases "is_Exception e")
      case False
      with assms b Inl have "res = Inl e" "w' = w1" by (auto simp: try_except_def)
      with p show ?thesis by auto
    next
      case True
      with assms b Inl have "set_status r ''Failed'' w1 = (res, w')" by (simp add: try_except_def)
      then have f: "passes r [''Failed''] w1 w'" by (rule passes_set_status)
      from p show ?thesis
      proof
        assume "passes r [''Running''] w w1 \<and> a \<noteq> Inr ()"
        then have "passes r ([''Running''] @ [''Failed'']) w w'" using f by (blast intro: passes_trans)
        then show ?thesis by auto
      next
        assume "passes r [''Running'', ''Completed''] w w1 \<and> env = Succeeds"
        then have "passes r ([''Running'', ''Completed''] @ [''Failed'']) w w'" using f by (blast intro: passes_trans)
        then show ?thesis by auto
      qed
    qed
  qed
qed

lemma run_passes:
  assumes "run env r w = (res, w')"
  shows "\<exists>ss. passes r ss w w' \<and>
     (ss = [''Running''] \<and> res \<noteq> Inr () \<or> ss = [''Running'', ''Completed''] \<or>
      ss = [''Running'', ''Failed''] \<or> ss = [''Running'', ''Completed'', ''Failed''])"
  using assms
  by (auto simp: run_def EmailTask_run_def DataBackupTask_run_def ReportGenerationTask_run_def
      split: task_class.splits dest!: try_except_passes)

subsection \<open>When \<open>set_status\<close> and \<open>run\<close> raise\<close>

lemma set_status_returns:
  assumes "\<forall>ob \<in> set (observers (task_heap w r)). \<forall>t old. snd (observer_heap w ob t old new) = None"
  shows "fst (set_status r new w) = Inr ()"
proof -
  obtain res w' where s: "set_status r new w = (res, w')" by (cases "set_status r new w")
  from set_status_effect[OF s] assms have "res = Inr ()"
    by (auto simp: update_raises_def)
  with s show ?thesis by simp
qed

lemma set_status_raised:
  assumes "set_status r new w = (Inl e, w')"
  shows "\<exists>ob \<in> set (observers (task_heap w r)). \<exists>t old. snd (observer_heap w ob t old new) = Some e"
  using set_status_effect[OF assms] by blast

lemma try_block_raised:
  assumes "try_block secs msg env r w = (Inl e, w')"
  shows "raised env = Some e \<or>
     (\<exists>ob \<in> set (observers (task_heap w r)). \<exists>t old new. snd (observer_heap w ob t old new) = Some e)"
proof -
  obtain a w1 where s1: "set_status r ''Running'' w = (a, w1)"
    by (cases "set_status r ''Running'' w")
  then have p1: "passes r [''Running''] w w1" by (rule passes_set_status)
  show ?thesis
  proof (cases a)
    case (Inl e')
    with assms s1 have "e' = e" by (auto simp: try_block_def)
    with s1 Inl show ?thesis by (blast dest: set_status_raised)
  next
    case (Inr u)
    show ?thesis
    proof (cases env)
      case Succeeds
      let ?w2 = "w1\<lparr>trace := trace w1 @ [Sleep secs, Print (msg (task_id (task_heap w1 r)))]\<rparr>"
      from assms s1 Inr Succeeds have "set_status r ''Completed'' ?w2 = (Inl e, w')"
        by (simp add: try_block_def)
      from set_status_raised[OF this] passes_frame(1,2)[OF p1]
      show ?thesis by auto
    next
      case (Sleep_raises e')
      with assms s1 Inr show ?thesis by (auto simp: try_block_def)
    next
      case (Print_raises e')
      with assms s1 Inr show ?thesis by (auto simp: try_block_def)
    qed
  qed
qed

lemma try_block_failed_work:
  assumes "try_block secs msg env r w = (res, w')" "raised env \<noteq> None"
  shows "res \<noteq> Inr ()"
  using assms
  by (cases env) (auto simp: try_block_def split: prod.splits sum.splits)

lemma try_block_non_failing:
  assumes "try_block secs msg env r w = (res, w')"
    and "\<forall>ob \<in> set (observers (task_heap w r)). non_failing w ob"
  shows "res = (case raised env of None \<Rightarrow> Inr () | Some e \<Rightarrow> Inl e)"
proof (cases res)
  case (Inl e)
  with try_block_raised[of secs msg env r w e w'] assms show ?thesis
    by (auto simp: non_failing_def)
next
  case (Inr u)
  with try_block_failed_work[OF assms(1)] show ?thesis by (cases "raised env") auto
qed

lemma try_except_returns:
  assumes t: "try_except secs msg env r w = (res, w')"
    and h1: "\<forall>ob \<in> set (observers (task_heap w r)). \<forall>t old. snd (observer_heap w ob t old ''Failed'') = None"
    and h2: "\<forall>ob \<in> set (observers (task_heap w r)). \<forall>t old new e.
               snd (observer_heap w ob t old new) = Some e \<longrightarrow> is_Exception e"
    and h3: "\<forall>e. raised env = Some e \<longrightarrow> is_Exception e"
  shows "res = Inr () \<and>
     (status (task_heap w' r) = ''Completed'' \<or> status (task_heap w' r) = ''Failed'') \<and>
     (raised env \<noteq> None \<longrightarrow> status (task_heap w' r) = ''Failed'')"
proof -
  obtain a w1 where b: "try_block secs msg env r w = (a, w1)"
    by (cases "try_block secs msg env r w")
  note p = try_block_passes[OF b]
  show ?thesis
  proof (cases a)
    case (Inr u)
    with t b have rw: "res = Inr ()" "w' = w1" by (auto simp: try_except_def)
    from p Inr have "passes r [''Running'', ''Completed''] w w1" by auto
    from passes_frame(2)[OF this] have "status (task_heap w1 r) = ''Completed''" by simp
    moreover from try_block_failed_work[OF b] Inr have "raised env = None" by (cases "raised env") auto
    ultimately show ?thesis using rw by simp
  next
    case (Inl e)
    with try_block_raised[of secs msg env r w e w1] b h2 h3 have "is_Exception e" by blast
    with t b Inl have f: "set_status r ''Failed'' w1 = (res, w')" by (simp add: try_except_def)
    from p have fr: "observer_heap w1 = observer_heap w"
      "observers (task_heap w1 r) = observers (task_heap w r)"
      using passes_frame(1,2) by fastforce+
    from set_status_returns[of w1 r "''Failed''"] h1 fr f have "res = Inr ()" by simp
    moreover from passes_frame(2)[OF passes_set_status[OF f]]
    have "status (task_heap w' r) = ''Failed''" by simp
    ultimately show ?thesis by simp
  qed
qed

lemma try_except_non_failing:
  assumes t: "try_except secs msg env r w = (res, w')"
    and nf: "\<forall>ob \<in> set (observers (task_heap w r)). non_failing w ob"
    and h3: "\<forall>e. raised env = Some e \<longrightarrow> is_Exception e"
  shows "res = Inr () \<and>
     passes r (if env = Succeeds then [''Running'', ''Completed''] else [''Running'', ''Failed'']) w w'"
proof -
  obtain a w1 where b: "try_block secs msg env r w = (a, w1)"
    by (cases "try_block secs msg env r w")
  note p = try_block_passes[OF b]
  note a = try_block_non_failing[OF b nf]
  show ?thesis
  proof (cases "raised env")
    case None
    then have s: "env = Succeeds" by (cases env) auto
    from a None have "a = Inr ()" by simp
    with t b have "res = Inr ()" "w' = w1" by (auto simp: try_except_def)
    with p \<open>a = Inr ()\<close> s show ?thesis by auto
  next
    case (Some e)
    then have s: "env \<noteq> Succeeds" by (cases env) auto
    from a Some have ai: "a = Inl e" by simp
    from h3 Some have "is_Exception e" by simp
    with t b ai have f: "set_status r ''Failed'' w1 = (res, w')" by (simp add: try_except_def)
    from p s have p1: "passes r [''Running''] w w1" by auto
    from passes_frame(1,2)[OF p1] have fr: "observer_heap w1 = observer_heap w"
      "observers (task_heap w1 r) = observers (task_heap w r)" by simp_all
    from set_status_returns[of w1 r "''Failed''"] nf fr f have "res = Inr ()"
      by (simp add: non_failing_def)
    moreover have "passes r ([''Running''] @ [''Failed'']) w w'"
      using p1 passes_set_status[OF f] by (rule passes_trans)
    ultimately show ?thesis using s by simp
  qed
qed

lemma run_try_except: "\<exists>secs msg. run env r w = try_except secs msg env r w"
  by (auto simp: run_def EmailTask_run_def DataBackupTask_run_def ReportGenerationTask_run_def
      split: task_class.splits)

lemma run_frame:
  assumes "run env r w = (res, w')"
  shows "observer_heap w' = observer_heap w"
    and "observers (task_heap w' r') = observers (task_heap w r')"
    and "r' \<noteq> r \<Longrightarrow> task_heap w' r' = task_heap w r'"
proof -
  from run_passes[OF assms] obtain ss where p: "passes r ss w w'" by blast
  show "observer_heap w' = observer_heap w" using passes_frame(1)[OF p] .
  show "r' \<noteq> r \<Longrightarrow> task_heap w' r' = task_heap w r'" using passes_frame(3)[OF p] .
  show "observers (task_heap w' r') = observers (task_heap w r')"
    using passes_frame(2)[OF p] passes_frame(3)[OF p, of r'] by (cases "r' = r") auto
qed

lemma run_started:
  assumes "run env r w = (res, w')"
  shows "status (task_heap w' r) \<in> {''Running'', ''Completed'', ''Failed''}"
    and "res = Inr () \<Longrightarrow> status (task_heap w' r) \<in> {''Completed'', ''Failed''}"
proof -
  from run_passes[OF assms] obtain ss where p: "passes r ss w w'"
    and ss: "ss = [''Running''] \<and> res \<noteq> Inr () \<or> ss = [''Running'', ''Completed''] \<or>
      ss = [''Running'', ''Failed''] \<or> ss = [''Running'', ''Completed'', ''Failed'']" by blast
  from passes_frame(2)[OF p] have s: "status (task_heap w' r) = last (status (task_heap w r) # ss)"
    by simp
  from ss s show "status (task_heap w' r) \<in> {''Running'', ''Completed'', ''Failed''}" by auto
  from ss s show "res = Inr () \<Longrightarrow> status (task_heap w' r) \<in> {''Completed'', ''Failed''}" by auto
qed

lemma run_contained:
  assumes "run env r w = (res, w')" "contained w r" "\<forall>e. raised env = Some e \<longrightarrow> is_Exception e"
  shows "res = Inr ()"
    and "raised env \<noteq> None \<Longrightarrow> status (task_heap w' r) = ''Failed''"
proof -
  from run_try_except obtain secs msg where "run env r w = try_except secs msg env r w" by blast
  with assms(1) have t: "try_except secs msg env r w = (res, w')" by simp
  from assms(2) have h1: "\<forall>ob \<in> set (observers (task_heap w r)). \<forall>t old. snd (observer_heap w ob t old ''Failed'') = None"
    and h2: "\<forall>ob \<in> set (observers (task_heap w r)). \<forall>t old new e.
               snd (observer_heap w ob t old new) = Some e \<longrightarrow> is_Exception e"
    unfolding contained_def by blast+
  from try_except_returns[OF t h1 h2 assms(3)]
  show "res = Inr ()" and "raised env \<noteq> None \<Longrightarrow> status (task_heap w' r) = ''Failed''" by auto
qed

subsection \<open>The workers of \<open>run_all\<close>\<close>

lemma run_workers_Cons:
  assumes "run_workers env ts (j # order) fs w = (fs', w')"
  obtains (skip) "\<not> j < length ts" "run_workers env ts order fs w = (fs', w')"
  | (exec) a w1 where "j < length ts" "run (env j) (ts ! j) w = (a, w1)"
      "run_workers env ts order (fs(j \<mapsto> a)) w1 = (fs', w')"
proof (cases "j < length ts")
  case False
  with assms skip show ?thesis by simp
next
  case True
  obtain a w1 where r: "run (env j) (ts ! j) w = (a, w1)" by (cases "run (env j) (ts ! j) w")
  with assms True exec show ?thesis by simp
qed

lemma run_workers_keeps:
  "run_workers env ts order fs w = (fs', w') \<Longrightarrow> i \<notin> set order \<Longrightarrow> fs' i = fs i"
proof (induction order arbitrary: fs w)
  case Nil
  then show ?case by simp
next
  case (Cons j order)
  from Cons.prems(1) show ?case
  proof (cases rule: run_workers_Cons)
    case skip
    with Cons show ?thesis by simp
  next
    case (exec a w1)
    from Cons.IH[OF exec(3)] Cons.prems(2) show ?thesis by simp
  qed
qed

lemma run_workers_done:
  "run_workers env ts order fs w = (fs', w') \<Longrightarrow> i \<in> set order \<Longrightarrow> i < length ts \<Longrightarrow> fs' i \<noteq> None"
proof (induction order arbitrary: fs w)
  case Nil
  then show ?case by simp
next
  case (Cons j order)
  from Cons.prems(1) show ?case
  proof (cases rule: run_workers_Cons)
    case skip
    with Cons show ?thesis by auto
  next
    case (exec a w1)
    show ?thesis
    proof (cases "i \<in> set order")
      case True
      from Cons.IH[OF exec(3) True Cons.prems(3)] show ?thesis .
    next
      case False
      with Cons.prems(2) have "j = i" by simp
      with run_workers_keeps[OF exec(3) False] show ?thesis by simp
    qed
  qed
qed

lemma run_workers_untouched:
  "run_workers env ts order fs w = (fs', w') \<Longrightarrow>
   \<forall>j \<in> set order. j < length ts \<longrightarrow> ts ! j \<noteq> r \<Longrightarrow> task_heap w' r = task_heap w r"
proof (induction order arbitrary: fs w)
  case Nil
  then show ?case by simp
next
  case (Cons j order)
  from Cons.prems(1) show ?case
  proof (cases rule: run_workers_Cons)
    case skip
    with Cons show ?thesis by simp
  next
    case (exec a w1)
    from Cons.prems(2) exec(1) have "ts ! j \<noteq> r" by simp
    with run_frame(3)[OF exec(2), of r] have "task_heap w1 r = task_heap w r" by simp
    moreover from Cons.IH[OF exec(3)] Cons.prems(2)
    have "task_heap w' r = task_heap w1 r" by simp
    ultimately show ?thesis by simp
  qed
qed

lemma run_workers_started:
  "run_workers env ts order fs w = (fs', w') \<Longrightarrow>
   status (task_heap w r) \<in> {''Running'', ''Completed'', ''Failed''} \<Longrightarrow>
   status (task_heap w' r) \<in> {''Running'', ''Completed'', ''Failed''}"
proof (induction order arbitrary: fs w)
  case Nil
  then show ?case by simp
next
  case (Cons j order)
  from Cons.prems(1) show ?case
  proof (cases rule: run_workers_Cons)
    case skip
    with Cons show ?thesis by simp
  next
    case (exec a w1)
    have "status (task_heap w1 r) \<in> {''Running'', ''Completed'', ''Failed''}"
    proof (cases "ts ! j = r")
      case True
      with run_started(1)[OF exec(2)] show ?thesis by simp
    next
      case False
      with run_frame(3)[OF exec(2), of r] Cons.prems(2) show ?thesis by simp
    qed
    from Cons.IH[OF exec(3) this] show ?thesis .
  qed
qed

lemma run_workers_starts:
  "run_workers env ts order fs w = (fs', w') \<Longrightarrow> i \<in> set order \<Longrightarrow> i < length ts \<Longrightarrow>
   status (task_heap w' (ts ! i)) \<in> {''Running'', ''Completed'', ''Failed''}"
proof (induction order arbitrary: fs w)
  case Nil
  then show ?case by simp
next
  case (Cons j order)
  from Cons.prems(1) show ?case
  proof (cases rule: run_workers_Cons)
    case skip
    with Cons show ?thesis by auto
  next
    case (exec a w1)
    show ?thesis
    proof (cases "j = i")
      case True
      with run_started(1)[OF exec(2)] run_workers_started[OF exec(3)] show ?thesis by blast
    next
      case False
      with Cons.prems(2) have "i \<in> set order" by simp
      from Cons.IH[OF exec(3) this Cons.prems(3)] show ?thesis .
    qed
  qed
qed

lemma run_workers_terminal:
  "run_workers env ts order fs w = (fs', w') \<Longrightarrow> distinct order \<Longrightarrow>
   \<forall>i. fs' i \<noteq> None \<longrightarrow> fs' i = Some (Inr ()) \<Longrightarrow>
   \<forall>i. fs i \<noteq> None \<longrightarrow> status (task_heap w (ts ! i)) \<in> {''Completed'', ''Failed''} \<Longrightarrow>
   \<forall>i. fs' i \<noteq> None \<longrightarrow> status (task_heap w' (ts ! i)) \<in> {''Completed'', ''Failed''}"
proof (induction order arbitrary: fs w)
  case Nil
  then show ?case by simp
next
  case (Cons j order)
  from Cons.prems(1) show ?case
  proof (cases rule: run_workers_Cons)
    case skip
    with Cons show ?thesis by simp
  next
    case (exec a w1)
    from Cons.prems(2) have d: "distinct order" "j \<notin> set order" by simp_all
    from run_workers_keeps[OF exec(3) d(2)] Cons.prems(3) have "a = Inr ()" by auto
    with run_started(2)[OF exec(2)]
    have t: "status (task_heap w1 (ts ! j)) \<in> {''Completed'', ''Failed''}" by simp
    have "\<forall>i. (fs(j \<mapsto> a)) i \<noteq> None \<longrightarrow> status (task_heap w1 (ts ! i)) \<in> {''Completed'', ''Failed''}"
    proof (intro allI impI)
      fix i assume i: "(fs(j \<mapsto> a)) i \<noteq> None"
      show "status (task_heap w1 (ts ! i)) \<in> {''Completed'', ''Failed''}"
      proof (cases "ts ! i = ts ! j")
        case True
        with t show ?thesis by simp
      next
        case False
        then have "i \<noteq> j" by auto
        with i have "fs i \<noteq> None" by simp
        with Cons.prems(4) run_frame(3)[OF exec(2) False] show ?thesis by simp
      qed
    qed
    from Cons.IH[OF exec(3) d(1) Cons.prems(3) this] show ?thesis .
  qed
qed

lemma same_observers_refl: "same_observers w w"
  by (simp add: same_observers_def)

lemma same_observers_run:
  "same_observers w0 w \<Longrightarrow> run env r w = (res, w') \<Longrightarrow> same_observers w0 w'"
  using run_frame(1,2)[of env r w res w'] by (simp add: same_observers_def)

lemma same_observers_contained:
  "same_observers w0 w \<Longrightarrow> contained w0 r \<Longrightarrow> contained w r"
  by (simp add: same_observers_def contained_def)

lemma same_observers_non_failing:
  "same_observers w0 w \<Longrightarrow> \<forall>ob \<in> set (observers (task_heap w0 r)). non_failing w0 ob \<Longrightarrow>
   \<forall>ob \<in> set (observers (task_heap w r)). non_failing w ob"
  by (simp add: same_observers_def non_failing_def)

lemma run_workers_each:
  assumes step: "\<And>i w1 a w2. i < length ts \<Longrightarrow> same_observers w0 w1 \<Longrightarrow>
        run (env i) (ts ! i) w1 = (a, w2) \<Longrightarrow> a = Inr () \<and> Q i (status (task_heap w2 (ts ! i)))"
    and "distinct ts"
  shows "run_workers env ts order fs w = (fs', w') \<Longrightarrow> distinct order \<Longrightarrow> same_observers w0 w \<Longrightarrow>
     \<forall>i. fs i \<noteq> None \<longrightarrow> fs i = Some (Inr ()) \<Longrightarrow>
     (\<forall>i. fs' i \<noteq> None \<longrightarrow> fs' i = Some (Inr ())) \<and>
     (\<forall>i \<in> set order. i < length ts \<longrightarrow> Q i (status (task_heap w' (ts ! i))))"
proof (induction order arbitrary: fs w)
  case Nil
  then show ?case by simp
next
  case (Cons j order)
  from Cons.prems(1) show ?case
  proof (cases rule: run_workers_Cons)
    case skip
    with Cons show ?thesis by simp
  next
    case (exec a w1)
    from Cons.prems(2) have d: "distinct order" "j \<notin> set order" by simp_all
    from step[OF exec(1) Cons.prems(3) exec(2)]
    have a: "a = Inr ()" and q: "Q j (status (task_heap w1 (ts ! j)))" by simp_all
    have so: "same_observers w0 w1" using Cons.prems(3) exec(2) by (rule same_observers_run)
    have fs: "\<forall>i. (fs(j \<mapsto> a)) i \<noteq> None \<longrightarrow> (fs(j \<mapsto> a)) i = Some (Inr ())"
      using Cons.prems(4) a by simp
    note ih = Cons.IH[OF exec(3) d(1) so fs]
    have "\<forall>k \<in> set order. k < length ts \<longrightarrow> ts ! k \<noteq> ts ! j"
      using d(2) exec(1) assms(2) by (auto simp: nth_eq_iff_index_eq)
    from run_workers_untouched[OF exec(3) this] q
    have "Q j (status (task_heap w' (ts ! j)))" by simp
    with ih show ?thesis by simp
  qed
qed

lemma run_workers_return:
  assumes "\<forall>r \<in> set ts. contained w0 r"
    and "\<forall>i < length ts. \<forall>e. raised (env i) = Some e \<longrightarrow> is_Exception e"
  shows "run_workers env ts order fs w = (fs', w') \<Longrightarrow> same_observers w0 w \<Longrightarrow>
     \<forall>i. fs i \<noteq> None \<longrightarrow> fs i = Some (Inr ()) \<Longrightarrow>
     \<forall>i. fs' i \<noteq> None \<longrightarrow> fs' i = Some (Inr ())"
proof (induction order arbitrary: fs w)
  case Nil
  then show ?case by simp
next
  case (Cons j order)
  from Cons.prems(1) show ?case
  proof (cases rule: run_workers_Cons)
    case skip
    with Cons show ?thesis by simp
  next
    case (exec a w1)
    from assms(1) exec(1) have "contained w0 (ts ! j)" by simp
    with Cons.prems(2) have "contained w (ts ! j)" by (rule same_observers_contained)
    from run_contained(1)[OF exec(2) this] assms(2) exec(1) have a: "a = Inr ()" by simp
    have so: "same_observers w0 w1" using Cons.prems(2) exec(2) by (rule same_observers_run)
    have fs: "\<forall>i. (fs(j \<mapsto> a)) i \<noteq> None \<longrightarrow> (fs(j \<mapsto> a)) i = Some (Inr ())"
      using Cons.prems(3) a by simp
    from Cons.IH[OF exec(3) so fs] show ?thesis .
  qed
qed

lemma wait_results_returns:
  "\<forall>i \<in> set is. futures i \<noteq> None \<Longrightarrow> \<exists>res. wait_results futures is = Some res"
  by (induction "is") (auto split: option.splits sum.splits)

lemma wait_results_Inr:
  "wait_results futures is = Some (Inr ()) \<Longrightarrow> \<forall>i \<in> set is. futures i = Some (Inr ())"
  by (induction "is") (auto split: option.splits sum.splits)

lemma wait_results_all_Inr:
  "\<forall>i \<in> set is. futures i = Some (Inr ()) \<Longrightarrow> wait_results futures is = Some (Inr ())"
  by (induction "is") (auto split: option.splits sum.splits)

lemma invoked_all: "\<forall>ob \<in> set obs. \<not> bad ob \<Longrightarrow> invoked bad obs = obs"
  by (induction obs) auto

lemma set_status_events:
  assumes "set_status r new w = (res, w')"
  shows "\<exists>evs. events_since w w' = Assign r new # evs \<and> (\<forall>e \<in> set evs. \<not> is_Assign e) \<and>
     filter is_Update evs =
       map (\<lambda>ob. Update ob r (status (task_heap w r)) new)
         (invoked (\<lambda>ob. update_raises w ob ((task_heap w r)\<lparr>status := new\<rparr>)
                      (status (task_heap w r)) new) (observers (task_heap w r)))"
  using set_status_effect[OF assms] by (auto simp: events_since_def)

lemma set_status_result:
  assumes "set_status r new w = (res, w')"
  shows "res = Inr () \<longleftrightarrow> \<not> notification_raises w r (status (task_heap w r)) new"
    and "task_heap w' = (task_heap w)(r := (task_heap w r)\<lparr>status := new\<rparr>)"
  using set_status_effect[OF assms] by (auto simp: notification_raises_def)

section \<open>The claims\<close>

subsection \<open>C3: what \<open>set_status\<close> does\<close>

text \<open>
  C3, as the code has it. \<open>set_status\<close> reads the prior status, overwrites the status
  field with the new one (nothing else in the task changes) and then calls \<open>update\<close> on
  the observers of the task's list in attachment order, each with the task, the old and the
  new status, up to and including the first observer whose call raises; it returns exactly
  when no call raises. When no call raises, every observer of the list is called exactly
  once, in attachment order.
\<close>

theorem set_status_notifies_in_order:
  "case set_status r new_status w of (res, w') \<Rightarrow>
     task_heap w' = (task_heap w)(r := (task_heap w r)\<lparr>status := new_status\<rparr>) \<and>
     (res = Inr ()) = (\<not> notification_raises w r (status (task_heap w r)) new_status) \<and>
     (\<exists>evs. events_since w w' = Assign r new_status # evs \<and>
        filter is_Update evs =
          map (\<lambda>ob. Update ob r (status (task_heap w r)) new_status)
            (invoked (\<lambda>ob. update_raises w ob ((task_heap w r)\<lparr>status := new_status\<rparr>)
                         (status (task_heap w r)) new_status)
               (observers (task_heap w r))) \<and>
        (\<not> notification_raises w r (status (task_heap w r)) new_status \<longrightarrow>
           filter is_Update evs =
             map (\<lambda>ob. Update ob r (status (task_heap w r)) new_status)
               (observers (task_heap w r))))"
proof -
  obtain res w' where s: "set_status r new_status w = (res, w')"
    by (cases "set_status r new_status w")
  from set_status_events[OF s] obtain evs where
    e: "events_since w w' = Assign r new_status # evs"
       "filter is_Update evs =
          map (\<lambda>ob. Update ob r (status (task_heap w r)) new_status)
            (invoked (\<lambda>ob. update_raises w ob ((task_heap w r)\<lparr>status := new_status\<rparr>)
                         (status (task_heap w r)) new_status)
               (observers (task_heap w r)))"
    by blast
  have "\<not> notification_raises w r (status (task_heap w r)) new_status \<Longrightarrow>
     invoked (\<lambda>ob. update_raises w ob ((task_heap w r)\<lparr>status := new_status\<rparr>)
                         (status (task_heap w r)) new_status) (observers (task_heap w r))
     = observers (task_heap w r)"
    by (rule invoked_all) (simp add: notification_raises_def)
  with e set_status_result[OF s] s show ?thesis by auto
qed

text \<open>
  An instance: the task of the first record with a logger and a second observer that
  raises only on \<open>Failed\<close>; the transition to \<open>Running\<close> calls both, in order.
\<close>

theorem set_status_notifies_in_order_witness:
  "filter is_Update
     (events_since (watched [TaskLogger_update, raises_on ''Failed''])
        (snd (set_status 0 ''Running'' (watched [TaskLogger_update, raises_on ''Failed''])))) =
   [Update 0 0 ''Pending'' ''Running'', Update 1 0 ''Pending'' ''Running'']"
proof -
  let ?w = "watched [TaskLogger_update, raises_on ''Failed'']"
  have o: "observers (task_heap ?w 0) = [0, 1]" and p: "status (task_heap ?w 0) = ''Pending''"
    by (simp_all add: model_defs)
  have h: "\<not> notification_raises ?w 0 (status (task_heap ?w 0)) ''Running''"
    by (simp add: notification_raises_def update_raises_def model_defs)
  from set_status_notifies_in_order[where r = 0 and new_status = "''Running''" and w = ?w] h o p
  show ?thesis by (auto split: prod.splits)
qed

text \<open>
  C3 as stated fails when an observer raises: the observer attached after it is in the
  list and is not called.
\<close>

theorem set_status_skips_after_raise:
  "observers (task_heap (watched [always_raises, TaskLogger_update]) 0) = [0, 1] \<and>
   filter is_Update
     (events_since (watched [always_raises, TaskLogger_update])
        (snd (set_status 0 ''Running'' (watched [always_raises, TaskLogger_update])))) =
   [Update 0 0 ''Pending'' ''Running'']"
  by (simp add: model_defs)

subsection \<open>C10: \<open>set_status\<close> with the current status\<close>

text \<open>
  C10, as the code has it. \<open>set_status\<close> has no guard: called with the status the task
  already has, it assigns the field all the same and calls the observers of the list in
  attachment order with the old status equal to the new one, up to and including the first
  observer whose call raises, hence every observer exactly once when no call raises. Nor
  is the new value checked against the current one: whatever string is passed becomes the
  status.
\<close>

theorem set_status_same_status:
  assumes "new_status = status (task_heap w r)"
  shows "case set_status r new_status w of (res, w') \<Rightarrow>
     (\<exists>evs. events_since w w' = Assign r new_status # evs \<and>
        filter is_Update evs =
          map (\<lambda>ob. Update ob r new_status new_status)
            (invoked (\<lambda>ob. update_raises w ob (task_heap w r) new_status new_status)
               (observers (task_heap w r))) \<and>
        (\<not> notification_raises w r new_status new_status \<longrightarrow>
           res = Inr () \<and>
           filter is_Update evs =
             map (\<lambda>ob. Update ob r new_status new_status) (observers (task_heap w r)))) \<and>
     (\<forall>s. status (task_heap (snd (set_status r s w)) r) = s)"
proof -
  obtain res w' where s: "set_status r new_status w = (res, w')"
    by (cases "set_status r new_status w")
  have t: "(task_heap w r)\<lparr>status := new_status\<rparr> = task_heap w r"
    using assms by simp
  from set_status_events[OF s] obtain evs where
    e: "events_since w w' = Assign r new_status # evs"
       "filter is_Update evs =
          map (\<lambda>ob. Update ob r new_status new_status)
            (invoked (\<lambda>ob. update_raises w ob (task_heap w r) new_status new_status)
               (observers (task_heap w r)))"
    unfolding t assms[symmetric] by blast
  have i: "\<not> notification_raises w r new_status new_status \<Longrightarrow>
     invoked (\<lambda>ob. update_raises w ob (task_heap w r) new_status new_status)
       (observers (task_heap w r)) = observers (task_heap w r)"
    by (rule invoked_all) (simp add: notification_raises_def t)
  have a: "\<forall>s. status (task_heap (snd (set_status r s w)) r) = s"
  proof
    fix s
    obtain res2 w2 where s2: "set_status r s w = (res2, w2)" by (cases "set_status r s w")
    from set_status_result(2)[OF s2] s2 show "status (task_heap (snd (set_status r s w)) r) = s"
      by simp
  qed
  from e i a set_status_result(1)[OF s] s assms show ?thesis by auto
qed

text \<open>
  An instance: the pending task of the first record with two loggers, set to \<open>Pending\<close>
  again; both are called with \<open>Pending\<close> twice.
\<close>

theorem set_status_same_status_witness:
  "status (task_heap (watched [TaskLogger_update, TaskLogger_update]) 0) = ''Pending'' \<and>
   filter is_Update
     (events_since (watched [TaskLogger_update, TaskLogger_update])
        (snd (set_status 0 ''Pending'' (watched [TaskLogger_update, TaskLogger_update])))) =
   [Update 0 0 ''Pending'' ''Pending'', Update 1 0 ''Pending'' ''Pending'']"
proof -
  let ?w = "watched [TaskLogger_update, TaskLogger_update]"
  have o: "observers (task_heap ?w 0) = [0, 1]" and p: "''Pending'' = status (task_heap ?w 0)"
    by (simp_all add: model_defs)
  have h: "\<not> notification_raises ?w 0 ''Pending'' ''Pending''"
    by (simp add: notification_raises_def update_raises_def model_defs)
  from set_status_same_status[OF p] h o p
  show ?thesis by (auto split: prod.splits)
qed

text \<open>
  C10 as stated fails when an observer raises: on a self-transition too, the observer
  attached after it is not notified.
\<close>

theorem set_status_same_status_skips:
  "status (task_heap (watched [raises_on ''Pending'', TaskLogger_update]) 0) = ''Pending'' \<and>
   observers (task_heap (watched [raises_on ''Pending'', TaskLogger_update]) 0) = [0, 1] \<and>
   filter is_Update
     (events_since (watched [raises_on ''Pending'', TaskLogger_update])
        (snd (set_status 0 ''Pending'' (watched [raises_on ''Pending'', TaskLogger_update])))) =
   [Update 0 0 ''Pending'' ''Pending'']"
  by (simp add: model_defs)

subsection \<open>C8: attaching an observer twice\<close>

lemma count_invoked:
  "\<forall>o' \<in> set obs. \<not> bad o' \<Longrightarrow>
   length (filter (\<lambda>e. e = Update ob r old new) (map (\<lambda>o'. Update o' r old new) (invoked bad obs)))
     = count_list obs ob"
  by (induction obs) auto

lemma filter_Update_eq:
  "filter (\<lambda>e. e = Update ob r old new) evs = filter (\<lambda>e. e = Update ob r old new) (filter is_Update evs)"
  by (induction evs) auto

lemma set_status_count:
  assumes "\<not> notification_raises w r (status (task_heap w r)) new"
  shows "length (filter (\<lambda>e. e = Update ob r (status (task_heap w r)) new)
           (events_since w (snd (set_status r new w))))
         = count_list (observers (task_heap w r)) ob"
proof -
  obtain res w' where s: "set_status r new w = (res, w')" by (cases "set_status r new w")
  from set_status_events[OF s] obtain evs where
    e: "events_since w w' = Assign r new # evs"
       "filter is_Update evs =
       map (\<lambda>ob. Update ob r (status (task_heap w r)) new)
         (invoked (\<lambda>ob. update_raises w ob ((task_heap w r)\<lparr>status := new\<rparr>)
                      (status (task_heap w r)) new) (observers (task_heap w r)))"
    by blast
  have "length (filter (\<lambda>e. e = Update ob r (status (task_heap w r)) new) (Assign r new # evs))
     = length (filter (\<lambda>e. e = Update ob r (status (task_heap w r)) new) (filter is_Update evs))"
    using filter_Update_eq[of ob r "status (task_heap w r)" new evs] by simp
  also have "\<dots> = count_list (observers (task_heap w r)) ob"
    unfolding e(2) using assms by (intro count_invoked) (simp add: notification_raises_def)
  finally show ?thesis using s e(1) by simp
qed

text \<open>
  C8, as the code has it. \<open>attach\<close> appends without looking at the list: after attaching
  the same observer twice the list ends with two entries for it. In every store in which
  the task's list is the one the two calls left, a status transition during which no
  \<open>update\<close> raises calls that observer once for each of its entries: twice, and once
  more for each entry it had before.
\<close>

theorem attach_twice_notified_twice:
  "observers (task_heap (attach r ob (attach r ob w)) r) = observers (task_heap w r) @ [ob, ob] \<and>
   (\<forall>v new_status.
      observers (task_heap v r) = observers (task_heap w r) @ [ob, ob] \<and>
      \<not> notification_raises v r (status (task_heap v r)) new_status \<longrightarrow>
      length (filter (\<lambda>e. e = Update ob r (status (task_heap v r)) new_status)
                (events_since v (snd (set_status r new_status v))))
        = count_list (observers (task_heap w r)) ob + 2)"
proof (intro conjI allI impI)
  show "observers (task_heap (attach r ob (attach r ob w)) r) = observers (task_heap w r) @ [ob, ob]"
    by (simp add: attach_def)
next
  fix v new_status
  assume a: "observers (task_heap v r) = observers (task_heap w r) @ [ob, ob] \<and>
      \<not> notification_raises v r (status (task_heap v r)) new_status"
  then have "length (filter (\<lambda>e. e = Update ob r (status (task_heap v r)) new_status)
                (events_since v (snd (set_status r new_status v))))
     = count_list (observers (task_heap v r)) ob" by (intro set_status_count) simp
  with a show "length (filter (\<lambda>e. e = Update ob r (status (task_heap v r)) new_status)
                (events_since v (snd (set_status r new_status v))))
        = count_list (observers (task_heap w r)) ob + 2" by simp
qed

text \<open>
  An instance: one logger attached twice to the task of the first record is called twice
  on the transition to \<open>Running\<close>.
\<close>

theorem attach_twice_notified_twice_witness:
  "twice_watched TaskLogger_update = attach 0 0 (attach 0 0 (snd (new_observer TaskLogger_update one_task))) \<and>
   length (filter (\<lambda>e. e = Update 0 0 ''Pending'' ''Running'')
     (events_since (twice_watched TaskLogger_update)
        (snd (set_status 0 ''Running'' (twice_watched TaskLogger_update))))) = 2"
proof -
  let ?w = "snd (new_observer TaskLogger_update one_task)"
  let ?v = "twice_watched TaskLogger_update"
  have n: "next_observer one_task = 0"
    by (simp add: model_defs)
  have v: "?v = attach 0 0 (attach 0 0 ?w)"
    by (simp add: twice_watched_def new_observer_def n)
  have w: "observers (task_heap ?w 0) = []" and p: "status (task_heap ?v 0) = ''Pending''"
    by (simp_all add: model_defs)
  have o: "observers (task_heap ?v 0) = observers (task_heap ?w 0) @ [0, 0]"
    by (simp add: model_defs)
  have h: "\<not> notification_raises ?v 0 (status (task_heap ?v 0)) ''Running''"
    by (simp add: notification_raises_def update_raises_def model_defs)
  from attach_twice_notified_twice[where r = 0 and ob = 0 and w = ?w] o h
  have "length (filter (\<lambda>e. e = Update 0 0 (status (task_heap ?v 0)) ''Running'')
          (events_since ?v (snd (set_status 0 ''Running'' ?v))))
        = count_list (observers (task_heap ?w 0)) 0 + 2"
    by blast
  with w p v show ?thesis by simp
qed

text \<open>
  C8 as stated fails when the observer raises: attached twice, it is called once, since
  its first call ends the loop.
\<close>

theorem attach_twice_raising_notified_once:
  "observers (task_heap (twice_watched always_raises) 0) = [0, 0] \<and>
   filter is_Update
     (events_since (twice_watched always_raises)
        (snd (set_status 0 ''Running'' (twice_watched always_raises)))) =
   [Update 0 0 ''Pending'' ''Running'']"
  by (simp add: model_defs)

subsection \<open>C4: the factory on a description with the three fields\<close>

text \<open>
  C4. For a description that has the fields \<open>type\<close>, \<open>task_id\<close> and \<open>name\<close>: when the
  type is \<open>email\<close>, \<open>backup\<close> or \<open>report\<close>, \<open>create_task\<close> returns a new object of the
  corresponding class, built from the description's \<open>task_id\<close> and \<open>name\<close> (pending, no
  observers); for any other type it raises the \<open>ValueError\<close> that carries the offending
  type and leaves the store as it was: no task is created.
\<close>

theorem create_task_by_type:
  assumes "task_json ''type'' = Some ty"
    and "task_json ''task_id'' = Some tid"
    and "task_json ''name'' = Some nm"
  shows "(ty = PStr ''email'' \<longrightarrow>
            create_task task_json w = (Inr (next_task w), snd (Task_init EmailTask tid nm w))) \<and>
         (ty = PStr ''backup'' \<longrightarrow>
            create_task task_json w = (Inr (next_task w), snd (Task_init DataBackupTask tid nm w))) \<and>
         (ty = PStr ''report'' \<longrightarrow>
            create_task task_json w =
              (Inr (next_task w), snd (Task_init ReportGenerationTask tid nm w))) \<and>
         (ty \<noteq> PStr ''email'' \<and> ty \<noteq> PStr ''backup'' \<and> ty \<noteq> PStr ''report'' \<longrightarrow>
            create_task task_json w = (Inl (ValueError ty), w)) \<and>
         (\<forall>c. task_heap (snd (Task_init c tid nm w)) (next_task w) =
            \<lparr>cls = c, task_id = tid, name = nm, status = ''Pending'',
             created_at = clock w, observers = []\<rparr>)"
  using assms by (simp add: create_task_def Task_init_def)

text \<open>
  Instances: the first record of the demonstration yields an \<open>EmailTask\<close> for task 1; the
  record of task 2 with the type \<open>bogus\<close> yields the error and no task.
\<close>

theorem create_task_by_type_witness:
  "fst (create_task welcome_email no_objects) = Inr 0 \<and>
   task_heap (snd (create_task welcome_email no_objects)) 0 =
     \<lparr>cls = EmailTask, task_id = PInt 1, name = PStr ''Send Welcome Email'',
      status = ''Pending'', created_at = 0, observers = []\<rparr> \<and>
   create_task bogus_type no_objects = (Inl (ValueError (PStr ''bogus'')), no_objects)"
proof -
  have h: "welcome_email ''type'' = Some (PStr ''email'')"
    "welcome_email ''task_id'' = Some (PInt 1)"
    "welcome_email ''name'' = Some (PStr ''Send Welcome Email'')"
    by (simp_all add: welcome_email_def)
  have g: "bogus_type ''type'' = Some (PStr ''bogus'')"
    "bogus_type ''task_id'' = Some (PInt 2)"
    "bogus_type ''name'' = Some (PStr ''y'')"
    by (simp_all add: bogus_type_def)
  have n: "next_task no_objects = 0" "clock no_objects = 0" by (simp_all add: no_objects_def)
  from create_task_by_type[OF h, of no_objects] create_task_by_type[OF g, of no_objects] n
  show ?thesis by simp
qed

subsection \<open>C9: the factory on a description that lacks a field\<close>

text \<open>
  C9. \<open>create_task\<close> reads \<open>type\<close>, \<open>task_id\<close> and \<open>name\<close>, in this order, before it
  compares the type. For a description that lacks one of the three it raises the
  \<open>KeyError\<close> of the first missing field, whatever the type is, and creates no task.
\<close>

theorem create_task_missing_field:
  assumes "task_json ''type'' = None \<or> task_json ''task_id'' = None \<or> task_json ''name'' = None"
  shows "create_task task_json w =
     (Inl (KeyError (if task_json ''type'' = None then ''type''
                     else if task_json ''task_id'' = None then ''task_id'' else ''name'')), w)"
proof (cases "task_json ''type''")
  case None
  then show ?thesis by (simp add: create_task_def)
next
  case ty: (Some task_type)
  show ?thesis
  proof (cases "task_json ''task_id''")
    case None
    with ty show ?thesis by (simp add: create_task_def)
  next
    case tid: (Some i)
    with ty assms have "task_json ''name'' = None" by simp
    with ty tid show ?thesis by (simp add: create_task_def)
  qed
qed

text \<open>
  An instance: a description with a type outside the three and no name raises the
  \<open>KeyError\<close> of \<open>name\<close>, not the \<open>ValueError\<close>.
\<close>

theorem create_task_missing_field_witness:
  "create_task bogus_unnamed no_objects = (Inl (KeyError ''name''), no_objects)"
proof -
  have h: "bogus_unnamed ''type'' = None \<or> bogus_unnamed ''task_id'' = None \<or>
           bogus_unnamed ''name'' = None"
    and g: "bogus_unnamed ''type'' \<noteq> None" "bogus_unnamed ''task_id'' \<noteq> None"
    by (simp_all add: bogus_unnamed_def)
  from create_task_missing_field[OF h, of no_objects] g show ?thesis by simp
qed

subsection \<open>C6: \<open>add_task\<close>\<close>

lemma add_task_fold:
  "fold (\<lambda>t (s, w). add_task t s w) ts (s, w) = (s', w') \<Longrightarrow>
   tasks s' = tasks s @ ts \<and> logger s' = logger s \<and>
   (\<forall>r. observers (task_heap w' r) =
          observers (task_heap w r) @ replicate (count_list ts r) (logger s))"
proof (induction ts arbitrary: s w)
  case Nil
  then show ?case by simp
next
  case (Cons t ts)
  let ?s1 = "s\<lparr>tasks := tasks s @ [t]\<rparr>" and ?w1 = "attach t (logger s) w"
  from Cons.prems have "fold (\<lambda>t (s, w). add_task t s w) ts (?s1, ?w1) = (s', w')"
    by (simp add: add_task_def)
  from Cons.IH[OF this] show ?case
    by (auto simp: attach_def replicate_append_same)
qed

text \<open>
  C6. \<open>add_task\<close> appends the scheduler's logger to the observer list of the task and the
  task to the end of the scheduler's list; nothing else changes, and the scheduler keeps its
  one logger. An observer the caller attaches afterwards comes after the logger. A new
  scheduler has one new logger and no tasks. Adding tasks one after the other keeps them in
  the order of addition and appends that same logger to the list of each, once for each
  time the task is added.
\<close>

theorem add_task_attaches_then_appends:
  "(case add_task t s w of (s', w') \<Rightarrow>
      w' = attach t (logger s) w \<and>
      task_heap w' = (task_heap w)(t := (task_heap w t)
                        \<lparr>observers := observers (task_heap w t) @ [logger s]\<rparr>) \<and>
      s' = s\<lparr>tasks := tasks s @ [t]\<rparr> \<and>
      logger s' = logger s \<and>
      observers (task_heap (attach t ob w') t) = observers (task_heap w t) @ [logger s, ob]) \<and>
   (case TaskScheduler_init w of (s0, w0) \<Rightarrow>
      tasks s0 = [] \<and> logger s0 = next_observer w \<and>
      observer_heap w0 (logger s0) = TaskLogger_update) \<and>
   (case fold (\<lambda>t (s, w). add_task t s w) ts (s, w) of (s', w') \<Rightarrow>
      tasks s' = tasks s @ ts \<and> logger s' = logger s \<and>
      (\<forall>r. observers (task_heap w' r) =
             observers (task_heap w r) @ replicate (count_list ts r) (logger s)))"
proof (intro conjI)
  show "case add_task t s w of (s', w') \<Rightarrow>
      w' = attach t (logger s) w \<and>
      task_heap w' = (task_heap w)(t := (task_heap w t)
                        \<lparr>observers := observers (task_heap w t) @ [logger s]\<rparr>) \<and>
      s' = s\<lparr>tasks := tasks s @ [t]\<rparr> \<and>
      logger s' = logger s \<and>
      observers (task_heap (attach t ob w') t) = observers (task_heap w t) @ [logger s, ob]"
    by (simp add: add_task_def attach_def)
  show "case TaskScheduler_init w of (s0, w0) \<Rightarrow>
      tasks s0 = [] \<and> logger s0 = next_observer w \<and>
      observer_heap w0 (logger s0) = TaskLogger_update"
    by (simp add: TaskScheduler_init_def TaskLogger_def new_observer_def)
  obtain s' w' where f: "fold (\<lambda>t (s, w). add_task t s w) ts (s, w) = (s', w')"
    by (cases "fold (\<lambda>t (s, w). add_task t s w) ts (s, w)")
  from add_task_fold[OF f] f
  show "case fold (\<lambda>t (s, w). add_task t s w) ts (s, w) of (s', w') \<Rightarrow>
      tasks s' = tasks s @ ts \<and> logger s' = logger s \<and>
      (\<forall>r. observers (task_heap w' r) =
             observers (task_heap w r) @ replicate (count_list ts r) (logger s))"
    by simp
qed

subsection \<open>C1 and C2: \<open>run\<close>\<close>

lemma passes_status_sequence:
  "passes r ss w w' \<Longrightarrow> status_sequence r w w' = status (task_heap w r) # ss"
  by (auto simp: passes_def status_sequence_def events_since_def)

lemma set_status_observers:
  assumes "set_status r new w = (res, w')"
  shows "observer_heap w' = observer_heap w"
  using passes_frame(1)[OF passes_set_status[OF assms]] .

lemma try_block_result:
  "fst (try_block secs msg env r w) = Inr () \<longleftrightarrow>
     raised env = None \<and>
     \<not> notification_raises w r (status (task_heap w r)) ''Running'' \<and>
     \<not> notification_raises w r ''Running'' ''Completed''"
proof -
  obtain a w1 where s1: "set_status r ''Running'' w = (a, w1)"
    by (cases "set_status r ''Running'' w")
  note a = set_status_result[OF s1] and o = set_status_observers[OF s1]
  show ?thesis
  proof (cases a)
    case (Inl e)
    with s1 a(1) show ?thesis by (simp add: try_block_def)
  next
    case (Inr u)
    then have nr: "\<not> notification_raises w r (status (task_heap w r)) ''Running''"
      using a(1) by simp
    show ?thesis
    proof (cases env)
      case Succeeds
      let ?w2 = "w1\<lparr>trace := trace w1 @ [Sleep secs, Print (msg (task_id (task_heap w1 r)))]\<rparr>"
      obtain b w3 where s2: "set_status r ''Completed'' ?w2 = (b, w3)"
        by (cases "set_status r ''Completed'' ?w2")
      have "notification_raises ?w2 r (status (task_heap ?w2 r)) ''Completed''
          = notification_raises w r ''Running'' ''Completed''"
        using a(2) o by (simp add: notification_raises_def update_raises_def)
      with set_status_result(1)[OF s2]
      have "b = Inr () \<longleftrightarrow> \<not> notification_raises w r ''Running'' ''Completed''" by simp
      moreover from s1 Inr Succeeds s2 have "fst (try_block secs msg env r w) = b"
        by (simp add: try_block_def)
      ultimately show ?thesis using nr Succeeds by simp
    next
      case (Sleep_raises e)
      with s1 Inr show ?thesis by (simp add: try_block_def)
    next
      case (Print_raises e)
      with s1 Inr show ?thesis by (simp add: try_block_def)
    qed
  qed
qed

lemma try_except_contained:
  assumes c: "contained w r" and h3: "\<forall>e. raised env = Some e \<longrightarrow> is_Exception e"
  shows "fst (try_except secs msg env r w) = Inr () \<and>
     status (task_heap (snd (try_except secs msg env r w)) r) =
       (if fst (try_block secs msg env r w) = Inr () then ''Completed'' else ''Failed'')"
proof -
  obtain res w' where t: "try_except secs msg env r w = (res, w')"
    by (cases "try_except secs msg env r w")
  obtain a w1 where b: "try_block secs msg env r w = (a, w1)"
    by (cases "try_block secs msg env r w")
  from c have h1: "\<forall>ob \<in> set (observers (task_heap w r)). \<forall>t old. snd (observer_heap w ob t old ''Failed'') = None"
    and h2: "\<forall>ob \<in> set (observers (task_heap w r)). \<forall>t old new e.
               snd (observer_heap w ob t old new) = Some e \<longrightarrow> is_Exception e"
    unfolding contained_def by blast+
  note r = try_except_returns[OF t h1 h2 h3]
  note p = try_block_passes[OF b]
  have "status (task_heap w' r) = (if a = Inr () then ''Completed'' else ''Failed'')"
  proof (cases a)
    case (Inr u)
    with t b have "w' = w1" by (auto simp: try_except_def)
    moreover from p Inr have "passes r [''Running'', ''Completed''] w w1" by auto
    from passes_frame(2)[OF this] have "status (task_heap w1 r) = ''Completed''" by simp
    ultimately show ?thesis using Inr by simp
  next
    case (Inl e)
    with try_block_raised[of secs msg env r w e w1] b h2 h3 have "is_Exception e" by blast
    with t b Inl have f: "set_status r ''Failed'' w1 = (res, w')" by (simp add: try_except_def)
    from set_status_result(2)[OF f] Inl show ?thesis by simp
  qed
  with r t b show ?thesis by simp
qed

text \<open>
  C2, as the code has it. When the observers of the task do not raise on the notification
  of \<open>Failed\<close> and everything raised (by an observer or by the work step) is an instance of
  \<open>Exception\<close>, \<open>run\<close> returns, and every fault inside its \<^verbatim>\<open>try\<close> block has become
  the status \<open>Failed\<close>: the task ends \<open>Completed\<close> when the work step succeeds and no
  observer raises on the notifications of \<open>Running\<close> and \<open>Completed\<close>, and \<open>Failed\<close>
  otherwise.
\<close>

theorem run_catches_exceptions:
  assumes "contained w r" and "\<forall>e. raised env = Some e \<longrightarrow> is_Exception e"
  shows "fst (run env r w) = Inr () \<and>
     status (task_heap (snd (run env r w)) r) =
       (if raised env = None \<and>
           \<not> notification_raises w r (status (task_heap w r)) ''Running'' \<and>
           \<not> notification_raises w r ''Running'' ''Completed''
        then ''Completed'' else ''Failed'')"
proof -
  from run_try_except obtain secs msg where "run env r w = try_except secs msg env r w" by blast
  with try_except_contained[OF assms, of secs msg] try_block_result[of secs msg env r w]
  show ?thesis by simp
qed

text \<open>
  An instance: an observer that raises on \<open>Completed\<close> only. The exception is caught, the
  task ends \<open>Failed\<close> and \<open>run\<close> returns.
\<close>

theorem run_catches_exceptions_witness:
  "fst (run Succeeds 0 (watched [TaskLogger_update, raises_on ''Completed''])) = Inr () \<and>
   status (task_heap (snd (run Succeeds 0 (watched [TaskLogger_update, raises_on ''Completed'']))) 0)
     = ''Failed''"
proof -
  let ?w = "watched [TaskLogger_update, raises_on ''Completed'']"
  have c: "contained ?w 0"
    by (simp add: contained_def model_defs)
  have e: "\<forall>e. raised Succeeds = Some e \<longrightarrow> is_Exception e" by simp
  have n: "notification_raises ?w 0 ''Running'' ''Completed''"
    by (simp add: notification_raises_def update_raises_def model_defs)
  from run_catches_exceptions[OF c e] n show ?thesis by simp
qed

text \<open>
  C2 as stated fails. The handler of \<open>run\<close> calls \<open>set_status\<close> outside the \<^verbatim>\<open>try\<close>
  block: with an observer that raises on every notification, the exception raised during
  the notification of \<open>Failed\<close> leaves \<open>run\<close>. And \<^verbatim>\<open>except Exception\<close> does not catch
  an exception outside \<open>Exception\<close>: it leaves \<open>run\<close> with the task still \<open>Running\<close>.
\<close>

theorem run_lets_exception_escape:
  "fst (run Succeeds 0 (watched [always_raises])) = Inl (Exception ''observer failed'') \<and>
   fst (run (Sleep_raises (BaseException ''KeyboardInterrupt'')) 0 one_task)
     = Inl (BaseException ''KeyboardInterrupt'') \<and>
   status (task_heap (snd (run (Sleep_raises (BaseException ''KeyboardInterrupt'')) 0 one_task)) 0)
     = ''Running''"
  by (simp add: model_defs)

text \<open>
  C1, as the code has it. A task that is \<open>Pending\<close> when \<open>run\<close> begins passes through
  \<open>Pending, Running, Completed\<close> or \<open>Pending, Running, Failed\<close>, or else through
  \<open>Pending, Running, Completed, Failed\<close> or \<open>Pending, Running\<close>. When no observer of the
  task ever raises and the work step raises nothing outside \<open>Exception\<close>, the sequence is
  exactly \<open>Pending, Running, Completed\<close> if the work step succeeds and exactly
  \<open>Pending, Running, Failed\<close> if it raises.
\<close>

theorem run_status_sequence:
  assumes "status (task_heap w r) = ''Pending''"
  shows "status_sequence r w (snd (run env r w)) \<in>
           {[''Pending'', ''Running'', ''Completed''], [''Pending'', ''Running'', ''Failed''],
            [''Pending'', ''Running'', ''Completed'', ''Failed''], [''Pending'', ''Running'']} \<and>
         ((\<forall>ob \<in> set (observers (task_heap w r)). non_failing w ob) \<and>
          (\<forall>e. raised env = Some e \<longrightarrow> is_Exception e) \<longrightarrow>
            fst (run env r w) = Inr () \<and>
            status_sequence r w (snd (run env r w)) =
              (if env = Succeeds then [''Pending'', ''Running'', ''Completed'']
               else [''Pending'', ''Running'', ''Failed'']))"
proof (intro conjI impI)
  obtain res w' where r: "run env r w = (res, w')" by (cases "run env r w")
  from run_passes[OF r] obtain ss where p: "passes r ss w w'"
    and ss: "ss = [''Running''] \<and> res \<noteq> Inr () \<or> ss = [''Running'', ''Completed''] \<or>
      ss = [''Running'', ''Failed''] \<or> ss = [''Running'', ''Completed'', ''Failed'']" by blast
  from passes_status_sequence[OF p] assms ss r
  show "status_sequence r w (snd (run env r w)) \<in>
           {[''Pending'', ''Running'', ''Completed''], [''Pending'', ''Running'', ''Failed''],
            [''Pending'', ''Running'', ''Completed'', ''Failed''], [''Pending'', ''Running'']}"
    by auto
next
  assume h: "(\<forall>ob \<in> set (observers (task_heap w r)). non_failing w ob) \<and>
          (\<forall>e. raised env = Some e \<longrightarrow> is_Exception e)"
  from run_try_except obtain secs msg where e: "run env r w = try_except secs msg env r w" by blast
  obtain res w' where t: "try_except secs msg env r w = (res, w')"
    by (cases "try_except secs msg env r w")
  from try_except_non_failing[OF t] h
  have res: "res = Inr ()" and p: "passes r (if env = Succeeds then [''Running'', ''Completed'']
      else [''Running'', ''Failed'']) w w'" by blast+
  from res e t show "fst (run env r w) = Inr ()" by simp
  from passes_status_sequence[OF p] assms e t
  show "status_sequence r w (snd (run env r w)) =
              (if env = Succeeds then [''Pending'', ''Running'', ''Completed'']
               else [''Pending'', ''Running'', ''Failed''])" by simp
qed

text \<open>
  Instances: the task of the first record with a logger, once with a work step that
  succeeds and once with one that raises.
\<close>

theorem run_status_sequence_witness:
  "status_sequence 0 (watched [TaskLogger_update])
     (snd (run Succeeds 0 (watched [TaskLogger_update])))
     = [''Pending'', ''Running'', ''Completed''] \<and>
   status_sequence 0 (watched [TaskLogger_update])
     (snd (run (Print_raises (Exception ''work failed'')) 0 (watched [TaskLogger_update])))
     = [''Pending'', ''Running'', ''Failed'']"
proof -
  let ?w = "watched [TaskLogger_update]"
  have p: "status (task_heap ?w 0) = ''Pending''"
    by (simp add: model_defs)
  have n: "\<forall>ob \<in> set (observers (task_heap ?w 0)). non_failing ?w ob"
    by (simp add: non_failing_def model_defs)
  have e: "\<forall>e. raised Succeeds = Some e \<longrightarrow> is_Exception e"
    "\<forall>e. raised (Print_raises (Exception ''work failed'')) = Some e \<longrightarrow> is_Exception e"
    by simp_all
  from run_status_sequence[OF p, of Succeeds]
    run_status_sequence[OF p, of "Print_raises (Exception ''work failed'')"] n e
  show ?thesis by simp
qed

text \<open>
  C1 as stated fails. \<open>set_status("Completed")\<close> is inside the \<^verbatim>\<open>try\<close> block: when an
  observer raises during that notification the handler assigns \<open>Failed\<close> to a task that
  is already \<open>Completed\<close>. And an exception outside \<open>Exception\<close> ends the sequence at
  \<open>Running\<close>.
\<close>

theorem run_completed_then_failed:
  "status_sequence 0 (watched [raises_on ''Completed''])
     (snd (run Succeeds 0 (watched [raises_on ''Completed''])))
     = [''Pending'', ''Running'', ''Completed'', ''Failed''] \<and>
   status_sequence 0 one_task
     (snd (run (Sleep_raises (BaseException ''KeyboardInterrupt'')) 0 one_task))
     = [''Pending'', ''Running'']"
  by (simp add: model_defs)

subsection \<open>C5: \<open>run_all\<close>\<close>

lemma run_non_failing:
  assumes "run env r w = (res, w')"
    and "\<forall>ob \<in> set (observers (task_heap w r)). non_failing w ob"
    and "\<forall>e. raised env = Some e \<longrightarrow> is_Exception e"
  shows "res = Inr ()"
    and "status (task_heap w' r) = (if env = Succeeds then ''Completed'' else ''Failed'')"
proof -
  from run_try_except obtain secs msg where "run env r w = try_except secs msg env r w" by blast
  with assms(1) have t: "try_except secs msg env r w = (res, w')" by simp
  from try_except_non_failing[OF t assms(2,3)]
  have res: "res = Inr ()" and p: "passes r (if env = Succeeds then [''Running'', ''Completed'']
      else [''Running'', ''Failed'']) w w'" by blast+
  show "res = Inr ()" by (rule res)
  from passes_frame(2)[OF p]
  show "status (task_heap w' r) = (if env = Succeeds then ''Completed'' else ''Failed'')" by simp
qed

lemma run_all_returns:
  assumes "schedule (length (tasks s)) order"
  obtains futures res w' where
    "run_workers env (tasks s) order Map.empty w = (futures, w')"
    "wait_results futures [0..<length (tasks s)] = Some res"
    "run_all order env s w = Some (res, w')"
    "\<forall>i. futures i \<noteq> None \<longleftrightarrow> i < length (tasks s)"
proof -
  obtain futures w' where rw: "run_workers env (tasks s) order Map.empty w = (futures, w')"
    by (cases "run_workers env (tasks s) order Map.empty w")
  from assms have o: "set order = {0..<length (tasks s)}" by (simp add: schedule_def)
  have d: "\<forall>i. futures i \<noteq> None \<longleftrightarrow> i < length (tasks s)"
  proof
    fix i
    show "futures i \<noteq> None \<longleftrightarrow> i < length (tasks s)"
    proof (cases "i < length (tasks s)")
      case True
      with o run_workers_done[OF rw, of i] show ?thesis by simp
    next
      case False
      with o run_workers_keeps[OF rw, of i] show ?thesis by simp
    qed
  qed
  then have "\<forall>i \<in> set [0..<length (tasks s)]. futures i \<noteq> None" by simp
  from wait_results_returns[OF this] obtain res where
    wr: "wait_results futures [0..<length (tasks s)] = Some res" by blast
  with rw have "run_all order env s w = Some (res, w')" by (simp add: run_all_def)
  with rw wr d that show ?thesis by blast
qed

lemma run_workers_all_started:
  assumes rw: "run_workers env ts order Map.empty w = (futures, w')"
    and o: "set order = {0..<length ts}"
  shows "\<forall>r \<in> set ts. status (task_heap w' r) \<in> {''Running'', ''Completed'', ''Failed''}"
proof
  fix r assume "r \<in> set ts"
  then obtain i where i: "i < length ts" "ts ! i = r" by (auto simp: in_set_conv_nth)
  with o run_workers_starts[OF rw, of i]
  show "status (task_heap w' r) \<in> {''Running'', ''Completed'', ''Failed''}" by simp
qed

lemma run_workers_all_terminal:
  assumes rw: "run_workers env ts order Map.empty w = (futures, w')"
    and d: "distinct order"
    and wr: "wait_results futures [0..<length ts] = Some (Inr ())"
    and dom: "\<forall>i. futures i \<noteq> None \<longleftrightarrow> i < length ts"
  shows "\<forall>r \<in> set ts. status (task_heap w' r) \<in> {''Completed'', ''Failed''}"
proof
  fix r assume "r \<in> set ts"
  then obtain i where i: "i < length ts" "ts ! i = r" by (auto simp: in_set_conv_nth)
  from wait_results_Inr[OF wr] dom
  have "\<forall>i. futures i \<noteq> None \<longrightarrow> futures i = Some (Inr ())" by simp
  from run_workers_terminal[OF rw d this] dom i
  show "status (task_heap w' r) \<in> {''Completed'', ''Failed''}" by auto
qed

lemma run_workers_all_return:
  assumes rw: "run_workers env ts order Map.empty w = (futures, w')"
    and c: "\<forall>r \<in> set ts. contained w r"
    and e: "\<forall>i < length ts. \<forall>e. raised (env i) = Some e \<longrightarrow> is_Exception e"
    and dom: "\<forall>i. futures i \<noteq> None \<longleftrightarrow> i < length ts"
  shows "wait_results futures [0..<length ts] = Some (Inr ())"
proof -
  from run_workers_return[OF c e rw same_observers_refl]
  have "\<forall>i. futures i \<noteq> None \<longrightarrow> futures i = Some (Inr ())" by simp
  with dom have "\<forall>i \<in> set [0..<length ts]. futures i = Some (Inr ())" by simp
  then show ?thesis by (rule wait_results_all_Inr)
qed

lemma run_workers_failed:
  assumes rw: "run_workers env ts order Map.empty w = (futures, w')"
    and o: "set order = {0..<length ts}" and d: "distinct order"
    and c: "\<forall>r \<in> set ts. contained w r"
    and e: "\<forall>i < length ts. \<forall>e. raised (env i) = Some e \<longrightarrow> is_Exception e"
    and dt: "distinct ts"
  shows "\<forall>i < length ts. raised (env i) \<noteq> None \<longrightarrow> status (task_heap w' (ts ! i)) = ''Failed''"
proof -
  have step: "a = Inr () \<and> (raised (env i) \<noteq> None \<longrightarrow> status (task_heap w2 (ts ! i)) = ''Failed'')"
    if i: "i < length ts" and so: "same_observers w w1"
      and r: "run (env i) (ts ! i) w1 = (a, w2)" for i w1 a w2
  proof -
    from c i have "contained w (ts ! i)" by simp
    with so have "contained w1 (ts ! i)" by (rule same_observers_contained)
    from run_contained[OF r this] e i show ?thesis by simp
  qed
  have em: "\<forall>i. Map.empty i \<noteq> None \<longrightarrow> (Map.empty :: nat \<rightharpoonup> exn + unit) i = Some (Inr ())"
    by simp
  from run_workers_each[where Q = "\<lambda>i st. raised (env i) \<noteq> None \<longrightarrow> st = ''Failed''"
      and ?w0.0 = w and env = env and ts = ts, OF step dt rw d same_observers_refl em]
  have "\<forall>i \<in> set order. i < length ts \<longrightarrow>
          (raised (env i) \<noteq> None \<longrightarrow> status (task_heap w' (ts ! i)) = ''Failed'')"
    by (rule conjunct2)
  with o show ?thesis by simp
qed

lemma run_workers_completed:
  assumes rw: "run_workers env ts order Map.empty w = (futures, w')"
    and o: "set order = {0..<length ts}" and d: "distinct order"
    and nf: "\<forall>r \<in> set ts. \<forall>ob \<in> set (observers (task_heap w r)). non_failing w ob"
    and e: "\<forall>i < length ts. \<forall>e. raised (env i) = Some e \<longrightarrow> is_Exception e"
    and dt: "distinct ts"
  shows "\<forall>i < length ts.
     status (task_heap w' (ts ! i)) = (if env i = Succeeds then ''Completed'' else ''Failed'')"
proof -
  have step: "a = Inr () \<and>
        status (task_heap w2 (ts ! i)) = (if env i = Succeeds then ''Completed'' else ''Failed'')"
    if i: "i < length ts" and so: "same_observers w w1"
      and r: "run (env i) (ts ! i) w1 = (a, w2)" for i w1 a w2
  proof -
    from i have "ts ! i \<in> set ts" by simp
    with nf have "\<forall>ob \<in> set (observers (task_heap w (ts ! i))). non_failing w ob" by blast
    with so have "\<forall>ob \<in> set (observers (task_heap w1 (ts ! i))). non_failing w1 ob"
      by (rule same_observers_non_failing)
    from run_non_failing[OF r this] e i show ?thesis by simp
  qed
  have em: "\<forall>i. Map.empty i \<noteq> None \<longrightarrow> (Map.empty :: nat \<rightharpoonup> exn + unit) i = Some (Inr ())"
    by simp
  from run_workers_each[where
        Q = "\<lambda>i st. st = (if env i = Succeeds then ''Completed'' else ''Failed'')"
      and ?w0.0 = w and env = env and ts = ts, OF step dt rw d same_observers_refl em]
  have "\<forall>i \<in> set order. i < length ts \<longrightarrow>
          status (task_heap w' (ts ! i)) = (if env i = Succeeds then ''Completed'' else ''Failed'')"
    by (rule conjunct2)
  with o show ?thesis by simp
qed

text \<open>
  C5, as the code has it. For every order in which the executor runs the submitted calls,
  \<open>run_all\<close> returns or raises after every call has been executed: every task of the
  scheduler has been started, whatever the other tasks did, and when \<open>run_all\<close> returns,
  every task is \<open>Completed\<close> or \<open>Failed\<close>. When the observers of the tasks do not
  raise on the notification of \<open>Failed\<close> and everything raised is an instance of
  \<open>Exception\<close>, \<open>run_all\<close> returns; if moreover the tasks are distinct, every task whose
  work step raised is \<open>Failed\<close>, and, when no observer ever raises, the other tasks are
  \<open>Completed\<close>.
\<close>

theorem run_all_contains_failures:
  assumes "schedule (length (tasks s)) order"
  shows "\<exists>res w'. run_all order env s w = Some (res, w') \<and>
     (\<forall>r \<in> set (tasks s). status (task_heap w' r) \<in> {''Running'', ''Completed'', ''Failed''}) \<and>
     (res = Inr () \<longrightarrow>
        (\<forall>r \<in> set (tasks s). status (task_heap w' r) \<in> {''Completed'', ''Failed''})) \<and>
     ((\<forall>r \<in> set (tasks s). contained w r) \<and>
      (\<forall>i < length (tasks s). \<forall>e. raised (env i) = Some e \<longrightarrow> is_Exception e) \<longrightarrow>
        res = Inr () \<and>
        (distinct (tasks s) \<longrightarrow>
           (\<forall>i < length (tasks s). raised (env i) \<noteq> None \<longrightarrow>
                status (task_heap w' (tasks s ! i)) = ''Failed'')) \<and>
        (distinct (tasks s) \<and>
         (\<forall>r \<in> set (tasks s). \<forall>ob \<in> set (observers (task_heap w r)). non_failing w ob) \<longrightarrow>
           (\<forall>i < length (tasks s).
                status (task_heap w' (tasks s ! i)) =
                  (if env i = Succeeds then ''Completed'' else ''Failed''))))"
proof -
  let ?ts = "tasks s"
  from assms have d: "distinct order" and o: "set order = {0..<length ?ts}"
    by (simp_all add: schedule_def)
  from assms obtain futures res w' where
    rw: "run_workers env ?ts order Map.empty w = (futures, w')"
    and wr: "wait_results futures [0..<length ?ts] = Some res"
    and ra: "run_all order env s w = Some (res, w')"
    and dom: "\<forall>i. futures i \<noteq> None \<longleftrightarrow> i < length ?ts"
    by (rule run_all_returns)
  show ?thesis
  proof (intro exI conjI impI)
    show "run_all order env s w = Some (res, w')" by (rule ra)
    show "\<forall>r \<in> set ?ts. status (task_heap w' r) \<in> {''Running'', ''Completed'', ''Failed''}"
      using rw o by (rule run_workers_all_started)
    show "\<forall>r \<in> set ?ts. status (task_heap w' r) \<in> {''Completed'', ''Failed''}" if "res = Inr ()"
      using rw d wr[unfolded that] dom by (rule run_workers_all_terminal)
    assume h: "(\<forall>r \<in> set ?ts. contained w r) \<and>
      (\<forall>i < length ?ts. \<forall>e. raised (env i) = Some e \<longrightarrow> is_Exception e)"
    then have c: "\<forall>r \<in> set ?ts. contained w r"
      and e: "\<forall>i < length ?ts. \<forall>e. raised (env i) = Some e \<longrightarrow> is_Exception e" by blast+
    from run_workers_all_return[OF rw c e dom] wr show "res = Inr ()" by simp
    show "\<forall>i < length ?ts. raised (env i) \<noteq> None \<longrightarrow>
                status (task_heap w' (?ts ! i)) = ''Failed''" if "distinct ?ts"
      using rw o d c e that by (rule run_workers_failed)
    show "\<forall>i < length ?ts.
                status (task_heap w' (?ts ! i)) =
                  (if env i = Succeeds then ''Completed'' else ''Failed'')"
      if a: "distinct ?ts \<and>
         (\<forall>r \<in> set ?ts. \<forall>ob \<in> set (observers (task_heap w r)). non_failing w ob)"
    proof -
      from a have dt: "distinct ?ts"
        and nf: "\<forall>r \<in> set ?ts. \<forall>ob \<in> set (observers (task_heap w r)). non_failing w ob"
        by blast+
      from rw o d nf e dt show ?thesis by (rule run_workers_completed)
    qed
  qed
qed

text \<open>
  An instance: the scheduler of the demonstration with its two tasks, the backup task run
  first, the work step of the email task raising. \<open>run_all\<close> returns, the email task is
  \<open>Failed\<close> and the backup task \<open>Completed\<close>.
\<close>

theorem run_all_contains_failures_witness:
  "\<exists>w'. run_all [1, 0] first_body_fails (fst demo) (snd demo) = Some (Inr (), w') \<and>
     status (task_heap w' 0) = ''Failed'' \<and> status (task_heap w' 1) = ''Completed''"
proof -
  have ts: "tasks (fst demo) = [0, 1]"
    by (simp add: model_defs)
  have ob: "observers (task_heap (snd demo) 0) = [0]"
    "observers (task_heap (snd demo) (Suc 0)) = [0]"
    and lg: "observer_heap (snd demo) 0 = TaskLogger_update"
    by (simp_all add: model_defs)
  have h: "schedule (length (tasks (fst demo))) [1, 0]"
    unfolding ts by (auto simp: schedule_def)
  have nf: "\<forall>r \<in> set (tasks (fst demo)). \<forall>ob \<in> set (observers (task_heap (snd demo) r)).
              non_failing (snd demo) ob"
    unfolding ts by (simp add: ob lg non_failing_def TaskLogger_update_def)
  have c: "\<forall>r \<in> set (tasks (fst demo)). contained (snd demo) r"
    unfolding ts by (simp add: ob lg contained_def TaskLogger_update_def)
  have e: "\<forall>i < length (tasks (fst demo)). \<forall>e. raised (first_body_fails i) = Some e \<longrightarrow> is_Exception e"
    by (simp add: first_body_fails_def)
  have dt: "distinct (tasks (fst demo))"
    unfolding ts by simp
  from run_all_contains_failures[OF h, of first_body_fails "snd demo"] obtain res w' where
    r: "run_all [1, 0] first_body_fails (fst demo) (snd demo) = Some (res, w')"
    and k: "(\<forall>r \<in> set (tasks (fst demo)). contained (snd demo) r) \<and>
      (\<forall>i < length (tasks (fst demo)). \<forall>e. raised (first_body_fails i) = Some e \<longrightarrow> is_Exception e) \<longrightarrow>
        res = Inr () \<and>
        (distinct (tasks (fst demo)) \<longrightarrow>
           (\<forall>i < length (tasks (fst demo)). raised (first_body_fails i) \<noteq> None \<longrightarrow>
                status (task_heap w' (tasks (fst demo) ! i)) = ''Failed'')) \<and>
        (distinct (tasks (fst demo)) \<and>
         (\<forall>r \<in> set (tasks (fst demo)). \<forall>ob \<in> set (observers (task_heap (snd demo) r)). non_failing (snd demo) ob) \<longrightarrow>
           (\<forall>i < length (tasks (fst demo)).
                status (task_heap w' (tasks (fst demo) ! i)) =
                  (if first_body_fails i = Succeeds then ''Completed'' else ''Failed'')))"
    by blast
  from k c e dt nf have res: "res = Inr ()"
    and st: "\<forall>i < length (tasks (fst demo)).
                status (task_heap w' (tasks (fst demo) ! i)) =
                  (if first_body_fails i = Succeeds then ''Completed'' else ''Failed'')"
    by blast+
  have l: "length (tasks (fst demo)) = 2" "tasks (fst demo) ! 0 = 0" "tasks (fst demo) ! 1 = 1"
    unfolding ts by simp_all
  from st l(1) have "status (task_heap w' (tasks (fst demo) ! 0)) =
      (if first_body_fails 0 = Succeeds then ''Completed'' else ''Failed'')"
    "status (task_heap w' (tasks (fst demo) ! 1)) =
      (if first_body_fails 1 = Succeeds then ''Completed'' else ''Failed'')"
    by (metis zero_less_numeral, metis one_less_numeral_iff semiring_norm(76))
  then have "status (task_heap w' 0) = ''Failed''" "status (task_heap w' 1) = ''Completed''"
    unfolding l by (simp_all add: first_body_fails_def)
  with r res show ?thesis by blast
qed

text \<open>
  C5 as stated fails when an observer raises on the notification of \<open>Failed\<close>: the email
  task's work step fails, the task is marked \<open>Failed\<close> inside its own \<open>run\<close>, the
  observer's exception leaves \<open>run\<close> and \<open>run_all\<close> raises it. The backup task has
  run all the same.
\<close>

theorem run_all_raises_observer_exception:
  "map_option fst (run_all [0, 1] first_body_fails (fst demo_alarm) (snd demo_alarm))
     = Some (Inl (Exception ''observer failed'')) \<and>
   status (task_heap (snd (the (run_all [0, 1] first_body_fails (fst demo_alarm)
     (snd demo_alarm)))) 0) = ''Failed'' \<and>
   status (task_heap (snd (the (run_all [0, 1] first_body_fails (fst demo_alarm)
     (snd demo_alarm)))) 1) = ''Completed''"
  by (simp add: model_defs)

end
